theory Spec2Isabelle
  imports Main "HOL-Library.Multiset"
begin

section \<open>Configuration and collaborators\<close>

text \<open>
  The batch handler \<^verbatim>\<open>BatchProcessFunc func([]interface{}) error\<close> is user code: it
  returns nil, returns an error, or panics (the reason \<^verbatim>\<open>work\<close> has a recover block).
\<close>

datatype 'e result = Returns_nil | Returns_err 'e | Panics

type_synonym ('a, 'e) BatchProcessFunc = "'a list \<Rightarrow> 'e result"

text \<open>
  \<^verbatim>\<open>AggregatorOption\<close>. Go's \<^verbatim>\<open>int\<close> and \<^verbatim>\<open>time.Duration\<close> are only compared and
  passed on, never computed with, so they are integers here. \<open>ErrorHandler\<close> and
  \<open>Logger\<close> say whether the field is non-nil; what the collaborator does when called is
  outside the engine and is recorded as an effect.
\<close>

record AggregatorOption =
  BatchSize :: int
  Workers :: int
  ChannelBufferSize :: int
  LingerTime :: int
  ErrorHandler :: bool
  Logger :: bool

type_synonym SetAggregatorOptionFunc = "AggregatorOption \<Rightarrow> AggregatorOption"

definition Millisecond :: int where
  "Millisecond = 1000000"

definition Minute :: int where
  "Minute = 60000 * Millisecond"

section \<open>Observable effects\<close>

text \<open>
  Every call the engine makes on a collaborator or on the runtime, in program order:
  logger calls with their format string, \<^verbatim>\<open>wg.Add(1)\<close>, \<^verbatim>\<open>wg.Done()\<close>, the call of the
  batch handler, the \<^verbatim>\<open>go\<close> statement that launches the error handler (with the error, the
  items and the handler reference it is given), \<^verbatim>\<open>lingerTimer.Reset\<close>, \<^verbatim>\<open>runtime.Gosched\<close>,
  and how a call of Stop or SafeStop ended: the panic of \<^verbatim>\<open>close\<close> on the closed channel, the
  return of \<^verbatim>\<open>wg.Wait()\<close>, or its panic "WaitGroup is reused before previous Wait has
  returned".
\<close>

datatype stop_call = In_Stop | In_SafeStop

datatype ('a, 'e) effect =
    Warnc string "'a list"
  | Errorc string
  | Infoc string nat
  | WgAdd
  | WgDone
  | Call "'a list"
  | GoErrorHandler 'e "'a list" "('a, 'e) BatchProcessFunc"
  | TimerReset int
  | Gosched
  | ClosePanic stop_call
  | Returns stop_call
  | ReusePanic stop_call

fun wg_of :: "('a, 'e) effect \<Rightarrow> int" where
  "wg_of WgAdd = 1"
| "wg_of WgDone = - 1"
| "wg_of _ = 0"

definition wg_delta :: "('a, 'e) effect list \<Rightarrow> int" where
  "wg_delta effs = sum_list (map wg_of effs)"

fun go_of :: "('a, 'e) effect \<Rightarrow> ('e \<times> 'a list) list" where
  "go_of (GoErrorHandler err items f) = [(err, items)]"
| "go_of _ = []"

definition launched :: "('a, 'e) effect list \<Rightarrow> ('e \<times> 'a list) list" where
  "launched effs = concat (map go_of effs)"

fun calls_of :: "('a, 'e) effect \<Rightarrow> 'a list list" where
  "calls_of (Call items) = [items]"
| "calls_of _ = []"

definition dispatched :: "('a, 'e) effect list \<Rightarrow> 'a list list" where
  "dispatched effs = concat (map calls_of effs)"

section \<open>The linger timer\<close>

text \<open>
  A \<^verbatim>\<open>time.Timer\<close> with its one-slot channel \<^verbatim>\<open>C\<close>: \<open>active\<close> while it is armed,
  \<open>deadline\<close> when it is due, \<open>timerC\<close> when the channel holds a value nobody has received.
  \<^verbatim>\<open>Stop\<close> reports whether it disarmed an armed timer and never empties the channel;
  expiry disarms the timer and fills the channel. This is the timer the idiom
  \<^verbatim>\<open>if !t.Stop() { <-t.C }\<close> is written for. On a timer that is disarmed with an empty
  channel, \<^verbatim>\<open>Stop\<close> returns false and a receive blocks, under Go 1.23's timers as well.
\<close>

record timer =
  active :: bool
  deadline :: int
  timerC :: bool

definition NewTimer :: "int \<Rightarrow> int \<Rightarrow> timer" where
  "NewTimer d now = \<lparr>active = True, deadline = now + d, timerC = False\<rparr>"

definition timer_Stop :: "timer \<Rightarrow> bool \<times> timer" where
  "timer_Stop t = (active t, t\<lparr>active := False\<rparr>)"

definition timer_Reset :: "int \<Rightarrow> int \<Rightarrow> timer \<Rightarrow> timer" where
  "timer_Reset d now t = t\<lparr>active := True, deadline := now + d\<rparr>"

definition timer_expire :: "timer \<Rightarrow> timer" where
  "timer_expire t = t\<lparr>active := False, timerC := True\<rparr>"

text \<open>\<^verbatim>\<open><-t.C\<close>: \<open>None\<close> when the channel is empty, where the receive blocks.\<close>

definition timer_recv :: "timer \<Rightarrow> timer option" where
  "timer_recv t = (if timerC t then Some (t\<lparr>timerC := False\<rparr>) else None)"

text \<open>The idiom \<^verbatim>\<open>if !t.Stop() { <-t.C }\<close> of lines 138-140 and 159-161.\<close>

definition stop_and_drain :: "timer \<Rightarrow> timer option" where
  "stop_and_drain t =
     (let (stopped, t') = timer_Stop t
      in if \<not> stopped then timer_recv t' else Some t')"

section \<open>batchProcess\<close>

text \<open>
  The effects of one \<^verbatim>\<open>batchProcess(items)\<close>, and whether the handler panicked.
  \<^verbatim>\<open>wg.Done()\<close> is deferred, so it is last on every path, the panic included.
\<close>

definition batchProcess ::
  "AggregatorOption \<Rightarrow> ('a, 'e) BatchProcessFunc \<Rightarrow> 'a list \<Rightarrow> bool \<times> ('a, 'e) effect list" where
  "batchProcess opt bp items =
     (case bp items of
        Returns_err err \<Rightarrow>
          (False,
           [WgAdd, Call items]
           @ (if Logger opt then [Errorc ''error happens''] else [])
           @ (if ErrorHandler opt then [GoErrorHandler err items bp]
              else if Logger opt then [Errorc ''error happens in batchProcess and is skipped'']
              else [])
           @ [WgDone])
      | Returns_nil \<Rightarrow>
          (False,
           [WgAdd, Call items]
           @ (if Logger opt then [Infoc ''%d items have been sent.'' (length items)] else [])
           @ [WgDone])
      | Panics \<Rightarrow> (True, [WgAdd, Call items, WgDone]))"

text \<open>
  The same function cut at the call of line 183: what comes before the handler is
  called is \<^verbatim>\<open>agt.wg.Add(1)\<close> and the call itself; what comes once the call is over, by a return
  or by a panic, is below. Between the two the dispatch is in flight, and other
  goroutines run.
\<close>

definition batchProcess_returns ::
  "AggregatorOption \<Rightarrow> ('a, 'e) BatchProcessFunc \<Rightarrow> 'a list \<Rightarrow> bool \<times> ('a, 'e) effect list" where
  "batchProcess_returns opt bp items =
     (case bp items of
        Returns_err err \<Rightarrow>
          (False,
           (if Logger opt then [Errorc ''error happens''] else [])
           @ (if ErrorHandler opt then [GoErrorHandler err items bp]
              else if Logger opt then [Errorc ''error happens in batchProcess and is skipped'']
              else [])
           @ [WgDone])
      | Returns_nil \<Rightarrow>
          (False,
           (if Logger opt then [Infoc ''%d items have been sent.'' (length items)] else [])
           @ [WgDone])
      | Panics \<Rightarrow> (True, [WgDone]))"

section \<open>The worker\<close>

text \<open>
  Where a worker goroutine stands: \<open>Spawned\<close> before it has run \<^verbatim>\<open>agt.wg.Add(1)\<close> (after
  \<^verbatim>\<open>go agt.work(index)\<close>, and again when the recover block calls \<^verbatim>\<open>agt.work(index)\<close>),
  \<open>Selecting\<close> at the select of line 145, \<open>Calling\<close> inside the batch handler's call made
  from the size path (line 157), the linger path (line 168) or the quit path (line 172),
  \<open>Draining\<close> blocked in \<^verbatim>\<open><-lingerTimer.C\<close> after a \<^verbatim>\<open>Stop\<close> that returned false, \<open>Returned\<close>
  after \<^verbatim>\<open>break loop\<close>.
\<close>

datatype path = Size_path | Linger_path | Quit_path

datatype pc = Spawned | Selecting | Calling path | Draining | Returned

record 'a worker =
  pc :: pc
  batch :: "'a list"
  lingerTimer :: timer

definition spawned :: "'a worker" where
  "spawned = \<lparr>pc = Spawned, batch = [], lingerTimer = \<lparr>active = False, deadline = 0, timerC = False\<rparr>\<rparr>"

text \<open>
  \<^verbatim>\<open>make\<close> with a size the runtime refuses. An \<^verbatim>\<open>interface{}\<close> is 16 bytes and the header of a
  channel 96; \<open>maxAlloc\<close> is the runtime's bound on one allocation (64-bit platforms).
  \<^verbatim>\<open>make(chan interface{}, n)\<close> panics (makechan: size out of range) when \<open>n\<close> is negative or
  the buffer exceeds \<open>maxAlloc - 96\<close> bytes; \<^verbatim>\<open>make([]interface{}, 0, n)\<close> panics (makeslice:
  cap out of range) when \<open>n\<close> is negative or the array exceeds \<open>maxAlloc\<close> bytes. A size the
  runtime accepts but the machine has no memory for (more than \<open>mem\<close> bytes) ends the whole
  program with the fatal error "out of memory", which no \<^verbatim>\<open>recover\<close> catches.
\<close>

definition maxAlloc :: int where
  "maxAlloc = 2 ^ 48"

definition makechan_panics :: "int \<Rightarrow> bool" where
  "makechan_panics n \<longleftrightarrow> n < 0 \<or> maxAlloc - 96 < 16 * n"

definition makechan_fatal :: "int \<Rightarrow> int \<Rightarrow> bool" where
  "makechan_fatal mem n \<longleftrightarrow> \<not> makechan_panics n \<and> mem < 16 * n + 96"

definition makeslice_panics :: "int \<Rightarrow> bool" where
  "makeslice_panics n \<longleftrightarrow> n < 0 \<or> maxAlloc < 16 * n"

definition makeslice_fatal :: "int \<Rightarrow> int \<Rightarrow> bool" where
  "makeslice_fatal mem n \<longleftrightarrow> \<not> makeslice_panics n \<and> mem < 16 * n"

text \<open>
  Lines 133-141. With a \<open>BatchSize\<close> that line 136 cannot make a slice of, the worker
  panics after \<^verbatim>\<open>agt.wg.Add(1)\<close> and \<^verbatim>\<open>defer agt.wg.Done()\<close>, before its timer exists: the
  deferred \<^verbatim>\<open>Done\<close> runs, the recover block logs and calls \<^verbatim>\<open>agt.work(index)\<close>, and the
  worker is where it started. Otherwise \<open>fired\<close> says whether the zero-duration timer
  expired before \<^verbatim>\<open>Stop\<close> was called; both orders are possible. (Lines 162 and 169
  repeat the \<^verbatim>\<open>make\<close> of line 136 with the same argument, and succeed where it did.)
\<close>

definition work_begin ::
  "AggregatorOption \<Rightarrow> int \<Rightarrow> bool \<Rightarrow> 'a worker \<times> ('a, 'e) effect list" where
  "work_begin opt now fired =
     (if makeslice_panics (BatchSize opt) then
        (spawned,
         [WgAdd, WgDone]
         @ (if Logger opt then [Errorc ''recover worker as bad thing happens %+v''] else []))
      else
        (let t0 = NewTimer 0 now;
             t1 = (if fired then timer_expire t0 else t0)
         in case stop_and_drain t1 of
              None \<Rightarrow> (\<lparr>pc = Draining, batch = [], lingerTimer = snd (timer_Stop t1)\<rparr>, [WgAdd])
            | Some t \<Rightarrow> (\<lparr>pc = Selecting, batch = [], lingerTimer = t\<rparr>, [WgAdd])))"

text \<open>
  A panic inside the loop: the deferred \<^verbatim>\<open>lingerTimer.Stop()\<close> and \<^verbatim>\<open>agt.wg.Done()\<close> run,
  then the recover block logs and calls \<^verbatim>\<open>agt.work(index)\<close>, which starts over.
\<close>

definition recovered ::
  "AggregatorOption \<Rightarrow> 'a worker \<Rightarrow> ('a, 'e) effect list \<Rightarrow> 'a worker \<times> ('a, 'e) effect list" where
  "recovered opt w effs =
     (\<lparr>pc = Spawned, batch = [], lingerTimer = snd (timer_Stop (lingerTimer w))\<rparr>,
      effs @ [WgDone]
      @ (if Logger opt then [Errorc ''recover worker as bad thing happens %+v''] else []))"

datatype 'a select = Case_req 'a | Case_linger | Case_quit

text \<open>One iteration of the loop of lines 144-177, for the case the select took.\<close>

definition work_select ::
  "AggregatorOption \<Rightarrow> ('a, 'e) BatchProcessFunc \<Rightarrow> int \<Rightarrow> 'a select \<Rightarrow> 'a worker
     \<Rightarrow> 'a worker \<times> ('a, 'e) effect list" where
  "work_select opt bp now c w =
     (case c of
        Case_req req \<Rightarrow>
          (let batch' = batch w @ [req];
               batchSize = int (length batch')
           in if batchSize < BatchSize opt then
                (if batchSize = 1 then
                   (w\<lparr>batch := batch',
                      lingerTimer := timer_Reset (LingerTime opt) now (lingerTimer w)\<rparr>,
                    [TimerReset (LingerTime opt)])
                 else (w\<lparr>batch := batch'\<rparr>, []))
              else
                (let (panicked, effs) = batchProcess opt bp batch'
                 in if panicked then recovered opt w effs
                    else (case stop_and_drain (lingerTimer w) of
                            None \<Rightarrow>
                              (w\<lparr>pc := Draining, batch := batch',
                                 lingerTimer := snd (timer_Stop (lingerTimer w))\<rparr>, effs)
                          | Some t \<Rightarrow> (w\<lparr>batch := [], lingerTimer := t\<rparr>, effs))))
      | Case_linger \<Rightarrow>
          (let t = (lingerTimer w)\<lparr>timerC := False\<rparr>
           in if length (batch w) = 0 then (w\<lparr>lingerTimer := t\<rparr>, [])
              else
                (let (panicked, effs) = batchProcess opt bp (batch w)
                 in if panicked then recovered opt (w\<lparr>lingerTimer := t\<rparr>) effs
                    else (w\<lparr>batch := [], lingerTimer := t\<rparr>, effs)))
      | Case_quit \<Rightarrow>
          (let done = w\<lparr>pc := Returned, lingerTimer := snd (timer_Stop (lingerTimer w))\<rparr>
           in if length (batch w) \<noteq> 0 then
                (let (panicked, effs) = batchProcess opt bp (batch w)
                 in if panicked then recovered opt w effs
                    else (done, effs @ [WgDone]))
              else (done, [WgDone])))"

text \<open>
  The same iteration cut at the handler's call, for the iterations that dispatch:
  \<open>work_call\<close> runs from the select to the point where the handler has been called and
  has not returned, \<open>work_return\<close> from the end of that call to the end of the iteration.
\<close>

definition dispatches :: "AggregatorOption \<Rightarrow> 'a select \<Rightarrow> 'a worker \<Rightarrow> bool" where
  "dispatches opt c w =
     (case c of
        Case_req req \<Rightarrow> \<not> int (length (batch w @ [req])) < BatchSize opt
      | Case_linger \<Rightarrow> length (batch w) \<noteq> 0
      | Case_quit \<Rightarrow> length (batch w) \<noteq> 0)"

definition path_of :: "'a select \<Rightarrow> path" where
  "path_of c = (case c of Case_req req \<Rightarrow> Size_path | Case_linger \<Rightarrow> Linger_path
                | Case_quit \<Rightarrow> Quit_path)"

definition work_call :: "'a select \<Rightarrow> 'a worker \<Rightarrow> 'a worker \<times> ('a, 'e) effect list" where
  "work_call c w =
     (case c of
        Case_req req \<Rightarrow>
          (w\<lparr>pc := Calling Size_path, batch := batch w @ [req]\<rparr>,
           [WgAdd, Call (batch w @ [req])])
      | Case_linger \<Rightarrow>
          (w\<lparr>pc := Calling Linger_path, lingerTimer := (lingerTimer w)\<lparr>timerC := False\<rparr>\<rparr>,
           [WgAdd, Call (batch w)])
      | Case_quit \<Rightarrow> (w\<lparr>pc := Calling Quit_path\<rparr>, [WgAdd, Call (batch w)]))"

definition work_return ::
  "AggregatorOption \<Rightarrow> ('a, 'e) BatchProcessFunc \<Rightarrow> path \<Rightarrow> 'a worker
     \<Rightarrow> 'a worker \<times> ('a, 'e) effect list" where
  "work_return opt bp p w =
     (let (panicked, effs) = batchProcess_returns opt bp (batch w)
      in if panicked then recovered opt w effs
         else (case p of
                 Size_path \<Rightarrow>
                   (case stop_and_drain (lingerTimer w) of
                      None \<Rightarrow>
                        (w\<lparr>pc := Draining,
                           lingerTimer := snd (timer_Stop (lingerTimer w))\<rparr>, effs)
                    | Some t \<Rightarrow> (w\<lparr>pc := Selecting, batch := [], lingerTimer := t\<rparr>, effs))
               | Linger_path \<Rightarrow> (w\<lparr>pc := Selecting, batch := []\<rparr>, effs)
               | Quit_path \<Rightarrow>
                   (w\<lparr>pc := Returned, lingerTimer := snd (timer_Stop (lingerTimer w))\<rparr>,
                    effs @ [WgDone])))"

text \<open>The blocked receive of line 160 (or 139) completes; line 162 resets the batch.\<close>

definition work_drain :: "'a worker \<Rightarrow> 'a worker option" where
  "work_drain w =
     (case timer_recv (lingerTimer w) of
        None \<Rightarrow> None
      | Some t \<Rightarrow> Some (w\<lparr>pc := Selecting, batch := [], lingerTimer := t\<rparr>))"

section \<open>The aggregator and the goroutines around it\<close>

text \<open>
  The fields of \<^verbatim>\<open>Aggregator\<close> (\<open>option\<close>, \<open>wg\<close>, \<open>quit\<close>, \<open>eventQueue\<close> with its
  capacity, \<open>batchProcessor\<close>), then the goroutines that share it: the workers, the
  error handlers launched and not yet returned, the callers inside SafeStop's ticker
  loop (each with the time of its next tick) and the callers inside \<^verbatim>\<open>wg.Wait()\<close>; the
  clock; and the effects so far. A caller inside \<^verbatim>\<open>wg.Wait()\<close> is in \<open>waiters\<close> until it has
  read the counter, in \<open>blocked\<close> once it has found it non-zero, registered as a waiter
  and gone to sleep, and in \<open>woken\<close> from the moment the counter reaching zero has released
  it until it runs again. \<open>memory\<close> is the number of bytes the machine can allocate in one
  piece.
\<close>

record ('a, 'e) state =
  option :: AggregatorOption
  wg :: int
  quit :: bool
  eventQueue :: "'a list"
  capacity :: nat
  batchProcessor :: "('a, 'e) BatchProcessFunc"
  workers :: "'a worker list"
  handlers :: "('e \<times> 'a list) list"
  pollers :: "int list"
  waiters :: "stop_call list"
  blocked :: "stop_call list"
  woken :: "stop_call list"
  now :: int
  memory :: int
  trace :: "('a, 'e) effect list"

datatype panic = Makechan_size_out_of_range | Out_of_memory

text \<open>
  \<^verbatim>\<open>NewAggregator\<close>. \<open>numCPU\<close> is \<^verbatim>\<open>runtime.NumCPU()\<close> and \<open>mem\<close> the memory of the machine.
  The clamp of lines 51-53 is followed by \<^verbatim>\<open>make(chan interface{}, n)\<close> with no guard.
\<close>

definition NewAggregator ::
  "('a, 'e) BatchProcessFunc \<Rightarrow> int \<Rightarrow> int \<Rightarrow> SetAggregatorOptionFunc list
     \<Rightarrow> panic + ('a, 'e) state" where
  "NewAggregator batchProcessor' numCPU mem optionFuncs =
     (let option0 = \<lparr>BatchSize = 8, Workers = numCPU, ChannelBufferSize = 0,
                      LingerTime = 1 * Minute, ErrorHandler = False, Logger = False\<rparr>;
          option1 = foldl (\<lambda>opt optionFunc. optionFunc opt) option0 optionFuncs;
          option2 = (if ChannelBufferSize option1 \<le> Workers option1
                     then option1\<lparr>ChannelBufferSize := Workers option1\<rparr> else option1)
      in if makechan_panics (ChannelBufferSize option2) then Inl Makechan_size_out_of_range
         else if makechan_fatal mem (ChannelBufferSize option2) then Inl Out_of_memory
         else Inr \<lparr>option = option2, wg = 0, quit = False, eventQueue = [],
                   capacity = nat (ChannelBufferSize option2), batchProcessor = batchProcessor',
                   workers = [], handlers = [], pollers = [], waiters = [], blocked = [],
                   woken = [], now = 0, memory = mem, trace = []\<rparr>)"

text \<open>
  A send on \<^verbatim>\<open>agt.eventQueue\<close> can proceed exactly when the buffer has room: the only
  receivers are the workers, and a worker waiting in its select means the buffer is empty.
\<close>

definition chan_send :: "'a \<Rightarrow> ('a, 'e) state \<Rightarrow> ('a, 'e) state option" where
  "chan_send item s =
     (if length (eventQueue s) < capacity s
      then Some (s\<lparr>eventQueue := eventQueue s @ [item]\<rparr>) else None)"

definition emit :: "('a, 'e) effect list \<Rightarrow> ('a, 'e) state \<Rightarrow> ('a, 'e) state" where
  "emit effs s = s\<lparr>trace := trace s @ effs\<rparr>"

text \<open>
  \<^verbatim>\<open>TryEnqueue\<close>. \<open>yield\<close> is what the other goroutines do to the state while this one
  is descheduled in \<^verbatim>\<open>runtime.Gosched()\<close>.
\<close>

definition TryEnqueue ::
  "'a \<Rightarrow> (('a, 'e) state \<Rightarrow> ('a, 'e) state) \<Rightarrow> ('a, 'e) state \<Rightarrow> bool \<times> ('a, 'e) state" where
  "TryEnqueue item yield s =
     (case chan_send item s of
        Some s' \<Rightarrow> (True, s')
      | None \<Rightarrow>
          (let s1 = (if Logger (option s)
                     then emit [Warnc ''Event queue is full and try reschedule'' []] s else s);
               s2 = yield (emit [Gosched] s1)
           in case chan_send item s2 of
                Some s' \<Rightarrow> (True, s')
              | None \<Rightarrow>
                  (False,
                   if Logger (option s2)
                   then emit [Warnc ''Event queue is still full and %+v is skipped.'' [item]] s2
                   else s2)))"

text \<open>\<^verbatim>\<open>Enqueue\<close>: \<open>None\<close> while the send blocks.\<close>

definition Enqueue :: "'a \<Rightarrow> ('a, 'e) state \<Rightarrow> ('a, 'e) state option" where
  "Enqueue item s = chan_send item s"

text \<open>\<^verbatim>\<open>Start\<close>: one \<^verbatim>\<open>go agt.work(index)\<close> for each index below \<open>Workers\<close>.\<close>

definition Start :: "('a, 'e) state \<Rightarrow> ('a, 'e) state" where
  "Start s = s\<lparr>workers := workers s @ replicate (nat (Workers (option s))) spawned\<rparr>"

text \<open>
  \<^verbatim>\<open>close(agt.quit)\<close> followed by entering \<^verbatim>\<open>agt.wg.Wait()\<close>; closing a closed channel
  panics in the calling goroutine.
\<close>

definition close_quit :: "stop_call \<Rightarrow> ('a, 'e) state \<Rightarrow> ('a, 'e) state" where
  "close_quit c s =
     (if quit s then emit [ClosePanic c] s
      else s\<lparr>quit := True, waiters := waiters s @ [c]\<rparr>)"

definition Stop :: "('a, 'e) state \<Rightarrow> ('a, 'e) state" where
  "Stop s = close_quit In_Stop s"

text \<open>
  \<^verbatim>\<open>SafeStop\<close> up to its first blocking point: the immediate check, then either the close
  or the ticker of 50 milliseconds.
\<close>

definition SafeStop :: "('a, 'e) state \<Rightarrow> ('a, 'e) state" where
  "SafeStop s =
     (if length (eventQueue s) = 0 then close_quit In_SafeStop s
      else s\<lparr>pollers := pollers s @ [now s + 50 * Millisecond]\<rparr>)"

text \<open>One tick of poller \<open>k\<close>'s ticker, not before it is due.\<close>

definition SafeStop_tick :: "nat \<Rightarrow> ('a, 'e) state \<Rightarrow> ('a, 'e) state option" where
  "SafeStop_tick k s =
     (if k < length (pollers s) \<and> pollers s ! k \<le> now s then
        (if length (eventQueue s) = 0
         then Some (close_quit In_SafeStop (s\<lparr>pollers := take k (pollers s) @ drop (Suc k) (pollers s)\<rparr>))
         else Some (s\<lparr>pollers := (pollers s)[k := pollers s ! k + 50 * Millisecond]\<rparr>))
      else None)"

text \<open>
  \<^verbatim>\<open>sync.WaitGroup\<close>, each of its calls one step. \<^verbatim>\<open>Wait\<close> reads the counter: at zero it
  returns (\<open>wg_Wait\<close>); otherwise it registers as a waiter and sleeps (\<open>wg_Wait_blocks\<close>).
  The \<^verbatim>\<open>Add\<close> or \<^verbatim>\<open>Done\<close> that brings the counter to zero wakes every registered waiter
  (\<open>wg_released\<close>). A woken waiter, when it runs again, returns if the counter is still
  zero and nobody has registered since, and otherwise panics with "WaitGroup is reused
  before previous Wait has returned" (\<open>wg_Wait_resumes\<close>): here a worker that ran its
  \<^verbatim>\<open>agt.wg.Add(1)\<close> in between. Between whole calls the counter is never negative and no
  waiter is registered while it is zero (lemmas \<open>execute_counter\<close>, \<open>execute_blocked\<close>), so
  \<^verbatim>\<open>Add\<close> and \<^verbatim>\<open>Done\<close> find nothing to panic about. What another goroutine can observe while
  an \<^verbatim>\<open>Add\<close> or \<^verbatim>\<open>Done\<close> is between two of its own instructions (it has brought the counter
  to zero and has not yet released the waiters) is below this granularity.
\<close>

definition wg_Wait :: "nat \<Rightarrow> ('a, 'e) state \<Rightarrow> ('a, 'e) state option" where
  "wg_Wait k s =
     (if k < length (waiters s) \<and> wg s = 0
      then Some (emit [Returns (waiters s ! k)]
                   (s\<lparr>waiters := take k (waiters s) @ drop (Suc k) (waiters s)\<rparr>))
      else None)"

definition wg_Wait_blocks :: "nat \<Rightarrow> ('a, 'e) state \<Rightarrow> ('a, 'e) state option" where
  "wg_Wait_blocks k s =
     (if k < length (waiters s) \<and> wg s \<noteq> 0
      then Some (s\<lparr>waiters := take k (waiters s) @ drop (Suc k) (waiters s),
                   blocked := blocked s @ [waiters s ! k]\<rparr>)
      else None)"

definition wg_released :: "('a, 'e) state \<Rightarrow> ('a, 'e) state" where
  "wg_released s = (if wg s = 0 then s\<lparr>blocked := [], woken := woken s @ blocked s\<rparr> else s)"

definition wg_Wait_resumes :: "nat \<Rightarrow> ('a, 'e) state \<Rightarrow> ('a, 'e) state option" where
  "wg_Wait_resumes k s =
     (if k < length (woken s)
      then Some (emit [if wg s = 0 \<and> blocked s = [] then Returns (woken s ! k)
                       else ReusePanic (woken s ! k)]
                   (s\<lparr>woken := take k (woken s) @ drop (Suc k) (woken s)\<rparr>))
      else None)"

section \<open>Interleavings\<close>

text \<open>
  What the scheduler, the clock and the callers can do next. A worker's select takes a
  case only when that case is ready. \<open>Select_req\<close>, \<open>Select_linger\<close> and \<open>Select_quit\<close> run
  a whole iteration with no other goroutine in between. \<open>Enters_req\<close>, \<open>Enters_linger\<close>
  and \<open>Enters_quit\<close> run an iteration that dispatches up to the handler's call and leave
  the dispatch in flight; \<open>Call_returns\<close> ends that call and runs the rest of the
  iteration; anything can happen in between. A worker whose \<^verbatim>\<open>make\<close> of line 136 would
  be fatal takes no step, since the program would end there.
\<close>

datatype 'a action =
    Call_Start
  | Call_Enqueue 'a
  | Call_Stop
  | Call_SafeStop
  | Ticker nat
  | Wait_returns nat
  | Wait_blocks nat
  | Wait_resumes nat
  | Work_begins nat bool
  | Select_req nat
  | Select_linger nat
  | Select_quit nat
  | Enters_req nat
  | Enters_linger nat
  | Enters_quit nat
  | Call_returns nat
  | Drained nat
  | Timer_expires nat
  | Time_passes nat
  | Handler_returns nat

definition commit ::
  "nat \<Rightarrow> 'a worker \<times> ('a, 'e) effect list \<Rightarrow> ('a, 'e) state \<Rightarrow> ('a, 'e) state" where
  "commit i r s =
     wg_released
       (s\<lparr>workers := (workers s)[i := fst r],
          wg := wg s + wg_delta (snd r),
          handlers := handlers s @ launched (snd r),
          trace := trace s @ snd r\<rparr>)"

definition at_pc :: "('a, 'e) state \<Rightarrow> nat \<Rightarrow> pc \<Rightarrow> bool" where
  "at_pc s i p = (i < length (workers s) \<and> pc (workers s ! i) = p)"

fun step :: "('a, 'e) state \<Rightarrow> 'a action \<Rightarrow> ('a, 'e) state option" where
  "step s Call_Start = Some (Start s)"
| "step s (Call_Enqueue item) = Enqueue item s"
| "step s Call_Stop = Some (Stop s)"
| "step s Call_SafeStop = Some (SafeStop s)"
| "step s (Ticker k) = SafeStop_tick k s"
| "step s (Wait_returns k) = wg_Wait k s"
| "step s (Wait_blocks k) = wg_Wait_blocks k s"
| "step s (Wait_resumes k) = wg_Wait_resumes k s"
| "step s (Work_begins i fired) =
     (if at_pc s i Spawned \<and> \<not> makeslice_fatal (memory s) (BatchSize (option s))
      then Some (commit i (work_begin (option s) (now s) fired) s)
      else None)"
| "step s (Select_req i) =
     (if at_pc s i Selecting \<and> eventQueue s \<noteq> [] then
        Some (commit i
                (work_select (option s) (batchProcessor s) (now s)
                   (Case_req (hd (eventQueue s))) (workers s ! i))
                (s\<lparr>eventQueue := tl (eventQueue s)\<rparr>))
      else None)"
| "step s (Select_linger i) =
     (if at_pc s i Selecting \<and> timerC (lingerTimer (workers s ! i)) then
        Some (commit i
                (work_select (option s) (batchProcessor s) (now s) Case_linger (workers s ! i)) s)
      else None)"
| "step s (Select_quit i) =
     (if at_pc s i Selecting \<and> quit s then
        Some (commit i
                (work_select (option s) (batchProcessor s) (now s) Case_quit (workers s ! i)) s)
      else None)"
| "step s (Enters_req i) =
     (if at_pc s i Selecting \<and> eventQueue s \<noteq> []
         \<and> dispatches (option s) (Case_req (hd (eventQueue s))) (workers s ! i) then
        Some (commit i (work_call (Case_req (hd (eventQueue s))) (workers s ! i))
                (s\<lparr>eventQueue := tl (eventQueue s)\<rparr>))
      else None)"
| "step s (Enters_linger i) =
     (if at_pc s i Selecting \<and> timerC (lingerTimer (workers s ! i))
         \<and> dispatches (option s) Case_linger (workers s ! i) then
        Some (commit i (work_call Case_linger (workers s ! i)) s)
      else None)"
| "step s (Enters_quit i) =
     (if at_pc s i Selecting \<and> quit s \<and> dispatches (option s) Case_quit (workers s ! i) then
        Some (commit i (work_call Case_quit (workers s ! i)) s)
      else None)"
| "step s (Call_returns i) =
     (if i < length (workers s) then
        (case pc (workers s ! i) of
           Calling p \<Rightarrow>
             Some (commit i (work_return (option s) (batchProcessor s) p (workers s ! i)) s)
         | _ \<Rightarrow> None)
      else None)"
| "step s (Drained i) =
     (if at_pc s i Draining then
        (case work_drain (workers s ! i) of
           None \<Rightarrow> None
         | Some w \<Rightarrow> Some (commit i (w, []) s))
      else None)"
| "step s (Timer_expires i) =
     (if i < length (workers s) \<and> active (lingerTimer (workers s ! i))
         \<and> deadline (lingerTimer (workers s ! i)) \<le> now s
      then Some (s\<lparr>workers := (workers s)[i := (workers s ! i)
                     \<lparr>lingerTimer := timer_expire (lingerTimer (workers s ! i))\<rparr>]\<rparr>)
      else None)"
| "step s (Time_passes d) = Some (s\<lparr>now := now s + int d\<rparr>)"
| "step s (Handler_returns k) =
     (if k < length (handlers s)
      then Some (s\<lparr>handlers := take k (handlers s) @ drop (Suc k) (handlers s)\<rparr>)
      else None)"

fun run :: "('a, 'e) state \<Rightarrow> 'a action list \<Rightarrow> ('a, 'e) state option" where
  "run s [] = Some s"
| "run s (a # as) = (case step s a of None \<Rightarrow> None | Some s' \<Rightarrow> run s' as)"

section \<open>Notions the properties are stated with\<close>

text \<open>A run of the whole program: construction, then a schedule from the fresh aggregator.\<close>

definition execute ::
  "('a, 'e) BatchProcessFunc \<Rightarrow> int \<Rightarrow> int \<Rightarrow> SetAggregatorOptionFunc list \<Rightarrow> 'a action list
     \<Rightarrow> ('a, 'e) state option" where
  "execute bp numCPU mem optionFuncs acts =
     (case NewAggregator bp numCPU mem optionFuncs of Inl p \<Rightarrow> None | Inr s \<Rightarrow> run s acts)"

text \<open>
  A worker is inside its loop once it has run \<^verbatim>\<open>agt.wg.Add(1)\<close> and until its deferred
  \<^verbatim>\<open>agt.wg.Done()\<close> has run; it is calling while the batch handler's call it made has not
  ended, that is while its dispatch is in flight.
\<close>

definition in_loop :: "'a worker \<Rightarrow> bool" where
  "in_loop w = (case pc w of Spawned \<Rightarrow> False | Returned \<Rightarrow> False | _ \<Rightarrow> True)"

definition calling :: "'a worker \<Rightarrow> bool" where
  "calling w = (case pc w of Calling p \<Rightarrow> True | _ \<Rightarrow> False)"

text \<open>
  What the workers have added to the counter and not yet taken back: one for each worker
  inside its loop and one more for each dispatch in flight.
\<close>

definition weight :: "'a worker \<Rightarrow> int" where
  "weight w = (if in_loop w then 1 else 0) + (if calling w then 1 else 0)"

definition counted :: "'a worker list \<Rightarrow> int" where
  "counted ws = sum_list (map weight ws)"

text \<open>
  Every call of the batch handler comes directly after a \<^verbatim>\<open>wg.Add(1)\<close>. The flag says
  whether the effect before was one.
\<close>

fun guarded :: "bool \<Rightarrow> ('a, 'e) effect list \<Rightarrow> bool" where
  "guarded b [] = True"
| "guarded b (WgAdd # es) = guarded True es"
| "guarded b (Call items # es) = (b \<and> guarded False es)"
| "guarded b (e # es) = guarded False es"

text \<open>
  The report of a failed dispatch: the \<^verbatim>\<open>go\<close> statement that launches the error handler, or
  the log line of line 192 that says the batch is skipped. \<open>due\<close> is the report the
  configuration asks for when the batch handler is called with \<open>items\<close>: none when the
  handler returns nil or panics.
\<close>

definition reported :: "('a, 'e) effect \<Rightarrow> bool" where
  "reported e =
     (case e of
        GoErrorHandler err items f \<Rightarrow> True
      | Errorc m \<Rightarrow> m = ''error happens in batchProcess and is skipped''
      | _ \<Rightarrow> False)"

definition due ::
  "AggregatorOption \<Rightarrow> ('a, 'e) BatchProcessFunc \<Rightarrow> 'a list \<Rightarrow> ('a, 'e) effect list" where
  "due opt bp items =
     (case bp items of
        Returns_err err \<Rightarrow>
          (if ErrorHandler opt then [GoErrorHandler err items bp]
           else if Logger opt then [Errorc ''error happens in batchProcess and is skipped'']
           else [])
      | _ \<Rightarrow> [])"

text \<open>
  The batches in flight, the items the workers at their select hold in their batches,
  and the items a schedule has enqueued.
\<close>

definition flying :: "'a worker \<Rightarrow> 'a list list" where
  "flying w = (if calling w then [batch w] else [])"

definition in_flight :: "'a worker list \<Rightarrow> 'a list list" where
  "in_flight ws = concat (map flying ws)"

definition holds :: "'a worker \<Rightarrow> 'a list" where
  "holds w = (if pc w = Selecting then batch w else [])"

definition held :: "'a worker list \<Rightarrow> 'a list" where
  "held ws = concat (map holds ws)"

fun enqueued :: "'a action list \<Rightarrow> 'a list" where
  "enqueued [] = []"
| "enqueued (Call_Enqueue x # as) = x # enqueued as"
| "enqueued (a # as) = enqueued as"

text \<open>
  The reports issued so far, with those the dispatches in flight will issue when their
  calls end, are the reports due for the batches dispatched so far.
\<close>

definition settled ::
  "AggregatorOption \<Rightarrow> ('a, 'e) BatchProcessFunc \<Rightarrow> ('a, 'e) state \<Rightarrow> bool" where
  "settled opt bp s \<longleftrightarrow>
     mset (filter reported (trace s)) + mset (concat (map (due opt bp) (in_flight (workers s))))
       = mset (concat (map (due opt bp) (dispatched (trace s))))"

text \<open>The items in the queue, in the batches held at a select, and in the batches dispatched.\<close>

definition accounted :: "('a, 'e) state \<Rightarrow> 'a multiset" where
  "accounted s =
     mset (eventQueue s) + mset (held (workers s)) + mset (concat (dispatched (trace s)))"

text \<open>Every batch held at the select is below \<open>BatchSize\<close>, every batch dispatched within it.\<close>

definition batches_bounded :: "AggregatorOption \<Rightarrow> ('a, 'e) state \<Rightarrow> bool" where
  "batches_bounded opt s \<longleftrightarrow>
     option s = opt
     \<and> (\<forall>w \<in> set (workers s). pc w = Selecting \<longrightarrow> int (length (batch w)) < BatchSize opt)
     \<and> (\<forall>items \<in> set (dispatched (trace s)).
           1 \<le> length items \<and> int (length items) \<le> BatchSize opt)"

text \<open>
  A worker blocked in \<^verbatim>\<open><-lingerTimer.C\<close> whose timer is neither armed nor holds a value:
  nothing will ever be sent on that channel.
\<close>

definition blocked_forever :: "'a worker \<Rightarrow> bool" where
  "blocked_forever w \<longleftrightarrow>
     pc w = Draining \<and> \<not> active (lingerTimer w) \<and> \<not> timerC (lingerTimer w)"

text \<open>
  The state of the timer a worker relies on: at the select, disarmed and drained while
  the batch is empty, and armed, or expired with its value still in the channel, while
  it is not; the same during a dispatch on the size path; disarmed and drained during a
  dispatch on the linger path.
\<close>

definition timer_consistent :: "'a worker \<Rightarrow> bool" where
  "timer_consistent w \<longleftrightarrow>
     pc w \<noteq> Draining
     \<and> (pc w = Selecting \<longrightarrow>
          (if batch w = [] then \<not> active (lingerTimer w) \<and> \<not> timerC (lingerTimer w)
           else active (lingerTimer w) \<noteq> timerC (lingerTimer w)))
     \<and> (pc w = Calling Size_path \<longrightarrow> active (lingerTimer w) \<noteq> timerC (lingerTimer w))
     \<and> (pc w = Calling Linger_path \<longrightarrow>
          \<not> active (lingerTimer w) \<and> \<not> timerC (lingerTimer w))"

text \<open>A worker at its select receives the given items at the given times, nothing else in between.\<close>

fun receive_all ::
  "AggregatorOption \<Rightarrow> ('a, 'e) BatchProcessFunc \<Rightarrow> 'a worker \<Rightarrow> (int \<times> 'a) list \<Rightarrow> 'a worker" where
  "receive_all opt bp w [] = w"
| "receive_all opt bp w ((tm, req) # rest) =
     receive_all opt bp (fst (work_select opt bp tm (Case_req req) w)) rest"

section \<open>Basic facts\<close>

lemma run_append:
  "run s (as @ bs) = (case run s as of None \<Rightarrow> None | Some s' \<Rightarrow> run s' bs)"
  by (induction as arbitrary: s) (auto split: option.splits)

lemma wg_delta_simps [simp]:
  "wg_delta [] = 0" "wg_delta (e # es) = wg_of e + wg_delta es"
  "wg_delta (xs @ ys) = wg_delta xs + wg_delta ys"
  by (simp_all add: wg_delta_def)

lemma launched_simps [simp]:
  "launched [] = []" "launched (e # es) = go_of e @ launched es"
  "launched (xs @ ys) = launched xs @ launched ys"
  by (simp_all add: launched_def)

lemma dispatched_simps [simp]:
  "dispatched [] = []" "dispatched (e # es) = calls_of e @ dispatched es"
  "dispatched (xs @ ys) = dispatched xs @ dispatched ys"
  by (simp_all add: dispatched_def)

lemma sum_list_map_update:
  fixes f :: "'b \<Rightarrow> 'c :: comm_monoid_add"
  shows "i < length xs \<Longrightarrow>
           sum_list (map f (xs[i := y])) + f (xs ! i) = sum_list (map f xs) + f y"
proof (induction xs arbitrary: i)
  case Nil
  then show ?case by simp
next
  case (Cons a xs)
  show ?case
  proof (cases i)
    case 0
    then show ?thesis by (simp add: ac_simps)
  next
    case (Suc j)
    with Cons.prems have "j < length xs" by simp
    from Cons.IH[OF this] show ?thesis
      by (simp add: Suc add.assoc)
  qed
qed

lemma batchProcess_effects:
  assumes "batchProcess opt bp items = (panicked, effs)"
  shows "dispatched effs = [items]" and "wg_delta effs = 0"
    and "panicked \<longleftrightarrow> bp items = Panics"
  using assms by (auto simp: batchProcess_def split: result.splits)

text \<open>\<open>batchProcess\<close> is its first two statements followed by \<open>batchProcess_returns\<close>.\<close>

lemma batchProcess_cut:
  "batchProcess opt bp items =
     (fst (batchProcess_returns opt bp items),
      [WgAdd, Call items] @ snd (batchProcess_returns opt bp items))"
  by (simp add: batchProcess_def batchProcess_returns_def split: result.splits)

lemma batchProcess_returns_simps:
  "dispatched (snd (batchProcess_returns opt bp items)) = []"
  "wg_delta (snd (batchProcess_returns opt bp items)) = - 1"
  "fst (batchProcess_returns opt bp items) \<longleftrightarrow> bp items = Panics"
  "launched (snd (batchProcess_returns opt bp items)) = launched (due opt bp items)"
  "filter reported (snd (batchProcess_returns opt bp items)) = due opt bp items"
  by (auto simp: batchProcess_returns_def due_def reported_def split: result.splits)

text \<open>
  An iteration that dispatches is \<open>work_call\<close> followed by \<open>work_return\<close>: the steps
  that run it in one piece are a schedule of the steps that leave the dispatch in flight.
\<close>

lemma work_select_cut:
  assumes "pc w = Selecting" and "dispatches opt c w"
    and "work_call c w = (w1, e1)" and "work_return opt bp (path_of c) w1 = (w2, e2)"
  shows "work_select opt bp tm c w = (w2, e1 @ e2)"
proof (cases c)
  case (Case_req req)
  with assms show ?thesis
    by (auto simp: work_select_def work_call_def work_return_def dispatches_def path_of_def
        batchProcess_cut recovered_def Let_def stop_and_drain_def timer_Stop_def timer_recv_def
        split: prod.splits option.splits if_splits)
next
  case Case_linger
  with assms show ?thesis
    by (auto simp: work_select_def work_call_def work_return_def dispatches_def path_of_def
        batchProcess_cut recovered_def Let_def timer_Stop_def
        split: prod.splits option.splits if_splits)
next
  case Case_quit
  with assms show ?thesis
    by (auto simp: work_select_def work_call_def work_return_def dispatches_def path_of_def
        batchProcess_cut recovered_def Let_def
        split: prod.splits option.splits if_splits)
qed

lemma run_preserves:
  assumes "\<And>s a s'. P s \<Longrightarrow> step s a = Some s' \<Longrightarrow> P s'"
    and "P s" and "run s as = Some s'"
  shows "P s'"
  using assms(2,3)
proof (induction as arbitrary: s)
  case Nil
  then show ?case by simp
next
  case (Cons a as)
  then show ?case using assms(1) by (auto split: option.splits)
qed

lemma commit_fields [simp]:
  "workers (commit i r s) = (workers s)[i := fst r]"
  "wg (commit i r s) = wg s + wg_delta (snd r)"
  "handlers (commit i r s) = handlers s @ launched (snd r)"
  "trace (commit i r s) = trace s @ snd r"
  "option (commit i r s) = option s"
  "quit (commit i r s) = quit s"
  "eventQueue (commit i r s) = eventQueue s"
  "capacity (commit i r s) = capacity s"
  "batchProcessor (commit i r s) = batchProcessor s"
  "pollers (commit i r s) = pollers s"
  "waiters (commit i r s) = waiters s"
  "now (commit i r s) = now s"
  "memory (commit i r s) = memory s"
  "blocked (commit i r s) = (if wg s + wg_delta (snd r) = 0 then [] else blocked s)"
  "woken (commit i r s) = (if wg s + wg_delta (snd r) = 0 then woken s @ blocked s else woken s)"
  by (simp_all add: commit_def wg_released_def)

lemma close_quit_fields [simp]:
  "workers (close_quit c s) = workers s"
  "wg (close_quit c s) = wg s"
  "handlers (close_quit c s) = handlers s"
  "option (close_quit c s) = option s"
  "eventQueue (close_quit c s) = eventQueue s"
  "capacity (close_quit c s) = capacity s"
  "batchProcessor (close_quit c s) = batchProcessor s"
  "pollers (close_quit c s) = pollers s"
  "now (close_quit c s) = now s"
  "memory (close_quit c s) = memory s"
  "blocked (close_quit c s) = blocked s"
  "woken (close_quit c s) = woken s"
  "quit (close_quit c s) = True"
  "trace (close_quit c s) = trace s @ (if quit s then [ClosePanic c] else [])"
  "waiters (close_quit c s) = waiters s @ (if quit s then [] else [c])"
  by (simp_all add: close_quit_def emit_def)

lemma in_set_updateD: "w \<in> set (xs[i := y]) \<Longrightarrow> w = y \<or> w \<in> set xs"
  using set_update_subset_insert[of xs i y] by auto

text \<open>The steps, by what they do to the state.\<close>

lemma step_cases [consumes 1, case_names begins selects enters returns drained expires start
    enqueue closes polls wait_returns wait_blocks wait_resumes time handler_returns]:
  assumes "step s a = Some s'"
  obtains
    (begins) i fired where "a = Work_begins i fired" "i < length (workers s)"
      "pc (workers s ! i) = Spawned"
      "s' = commit i (work_begin (option s) (now s) fired) s"
  | (selects) i c q where "i < length (workers s)" "pc (workers s ! i) = Selecting"
      "s' = commit i (work_select (option s) (batchProcessor s) (now s) c (workers s ! i))
              (s\<lparr>eventQueue := q\<rparr>)"
      "case c of
         Case_req x \<Rightarrow> eventQueue s = x # q \<and> a = Select_req i
       | Case_linger \<Rightarrow>
           q = eventQueue s \<and> timerC (lingerTimer (workers s ! i)) \<and> a = Select_linger i
       | Case_quit \<Rightarrow> q = eventQueue s \<and> quit s \<and> a = Select_quit i"
  | (enters) i c q where "i < length (workers s)" "pc (workers s ! i) = Selecting"
      "dispatches (option s) c (workers s ! i)"
      "s' = commit i (work_call c (workers s ! i)) (s\<lparr>eventQueue := q\<rparr>)"
      "case c of
         Case_req x \<Rightarrow> eventQueue s = x # q \<and> a = Enters_req i
       | Case_linger \<Rightarrow>
           q = eventQueue s \<and> timerC (lingerTimer (workers s ! i)) \<and> a = Enters_linger i
       | Case_quit \<Rightarrow> q = eventQueue s \<and> quit s \<and> a = Enters_quit i"
  | (returns) i p where "a = Call_returns i" "i < length (workers s)"
      "pc (workers s ! i) = Calling p"
      "s' = commit i (work_return (option s) (batchProcessor s) p (workers s ! i)) s"
  | (drained) i w where "a = Drained i" "i < length (workers s)"
      "pc (workers s ! i) = Draining" "work_drain (workers s ! i) = Some w"
      "s' = commit i (w, []) s"
  | (expires) i where "a = Timer_expires i" "i < length (workers s)"
      "active (lingerTimer (workers s ! i))"
      "s' = s\<lparr>workers := (workers s)[i := (workers s ! i)
                 \<lparr>lingerTimer := timer_expire (lingerTimer (workers s ! i))\<rparr>]\<rparr>"
  | (start) "a = Call_Start" "s' = Start s"
  | (enqueue) x where "a = Call_Enqueue x" "s' = s\<lparr>eventQueue := eventQueue s @ [x]\<rparr>"
  | (closes) c ps where "s' = close_quit c (s\<lparr>pollers := ps\<rparr>)"
      "a = Call_Stop \<or> eventQueue s = []"
      "a = Call_Stop \<or> a = Call_SafeStop \<or> (\<exists>k. a = Ticker k)"
  | (polls) ps where "s' = s\<lparr>pollers := ps\<rparr>" "a = Call_SafeStop \<or> (\<exists>k. a = Ticker k)"
  | (wait_returns) k where "a = Wait_returns k" "k < length (waiters s)" "wg s = 0"
      "s' = emit [Returns (waiters s ! k)]
              (s\<lparr>waiters := take k (waiters s) @ drop (Suc k) (waiters s)\<rparr>)"
  | (wait_blocks) k where "a = Wait_blocks k" "k < length (waiters s)" "wg s \<noteq> 0"
      "s' = s\<lparr>waiters := take k (waiters s) @ drop (Suc k) (waiters s),
               blocked := blocked s @ [waiters s ! k]\<rparr>"
  | (wait_resumes) k where "a = Wait_resumes k" "k < length (woken s)"
      "s' = emit [if wg s = 0 \<and> blocked s = [] then Returns (woken s ! k)
                  else ReusePanic (woken s ! k)]
              (s\<lparr>woken := take k (woken s) @ drop (Suc k) (woken s)\<rparr>)"
  | (time) d where "a = Time_passes d" "s' = s\<lparr>now := now s + int d\<rparr>"
  | (handler_returns) k where "a = Handler_returns k" "k < length (handlers s)"
      "s' = s\<lparr>handlers := take k (handlers s) @ drop (Suc k) (handlers s)\<rparr>"
proof (cases a)
  case Call_Start
  with assms show ?thesis by (intro start) auto
next
  case (Call_Enqueue x)
  with assms show ?thesis
    by (intro enqueue[of x]) (auto simp: Enqueue_def chan_send_def split: if_splits)
next
  case Call_Stop
  with assms show ?thesis by (intro closes[of In_Stop "pollers s"]) (auto simp: Stop_def)
next
  case Call_SafeStop
  show ?thesis
  proof (cases "eventQueue s = []")
    case True
    with Call_SafeStop assms show ?thesis
      by (intro closes[of In_SafeStop "pollers s"]) (auto simp: SafeStop_def)
  next
    case False
    with Call_SafeStop assms show ?thesis
      by (intro polls[of "pollers s @ [now s + 50 * Millisecond]"]) (auto simp: SafeStop_def)
  qed
next
  case (Ticker k)
  show ?thesis
  proof (cases "eventQueue s = []")
    case True
    with Ticker assms show ?thesis
      by (intro closes[of In_SafeStop "take k (pollers s) @ drop (Suc k) (pollers s)"])
        (auto simp: SafeStop_tick_def split: if_splits)
  next
    case False
    with Ticker assms show ?thesis
      by (intro polls[of "(pollers s)[k := pollers s ! k + 50 * Millisecond]"])
        (auto simp: SafeStop_tick_def split: if_splits)
  qed
next
  case (Wait_returns k)
  with assms show ?thesis
    by (intro wait_returns[of k]) (auto simp: wg_Wait_def split: if_splits)
next
  case (Wait_blocks k)
  with assms show ?thesis
    by (intro wait_blocks[of k]) (auto simp: wg_Wait_blocks_def split: if_splits)
next
  case (Wait_resumes k)
  with assms show ?thesis
    by (intro wait_resumes[of k]) (auto simp: wg_Wait_resumes_def split: if_splits)
next
  case (Work_begins i fired)
  with assms show ?thesis
    by (intro begins[of i fired]) (auto simp: at_pc_def split: if_splits)
next
  case (Select_req i)
  with assms have "eventQueue s = hd (eventQueue s) # tl (eventQueue s)"
    by (auto split: if_splits)
  with Select_req assms show ?thesis
    by (intro selects[of i "Case_req (hd (eventQueue s))" "tl (eventQueue s)"])
      (auto simp: at_pc_def split: if_splits)
next
  case (Select_linger i)
  with assms show ?thesis
    by (intro selects[of i Case_linger "eventQueue s"]) (auto simp: at_pc_def split: if_splits)
next
  case (Select_quit i)
  with assms show ?thesis
    by (intro selects[of i Case_quit "eventQueue s"]) (auto simp: at_pc_def split: if_splits)
next
  case (Enters_req i)
  with assms have "eventQueue s = hd (eventQueue s) # tl (eventQueue s)"
    by (auto split: if_splits)
  with Enters_req assms show ?thesis
    by (intro enters[of i "Case_req (hd (eventQueue s))" "tl (eventQueue s)"])
      (auto simp: at_pc_def split: if_splits)
next
  case (Enters_linger i)
  with assms show ?thesis
    by (intro enters[of i Case_linger "eventQueue s"]) (auto simp: at_pc_def split: if_splits)
next
  case (Enters_quit i)
  with assms show ?thesis
    by (intro enters[of i Case_quit "eventQueue s"]) (auto simp: at_pc_def split: if_splits)
next
  case (Call_returns i)
  with assms obtain p where "i < length (workers s)" "pc (workers s ! i) = Calling p"
    "s' = commit i (work_return (option s) (batchProcessor s) p (workers s ! i)) s"
    by (auto split: if_splits pc.splits)
  with Call_returns show ?thesis by (intro returns[of i p]) auto
next
  case (Drained i)
  with assms obtain w where "i < length (workers s)" "pc (workers s ! i) = Draining"
    "work_drain (workers s ! i) = Some w" "s' = commit i (w, []) s"
    by (auto simp: at_pc_def split: if_splits option.splits)
  with Drained show ?thesis by (intro drained[of i w]) auto
next
  case (Timer_expires i)
  with assms show ?thesis by (intro expires[of i]) (auto split: if_splits)
next
  case (Time_passes d)
  with assms show ?thesis by (intro time[of d]) auto
next
  case (Handler_returns k)
  with assms show ?thesis by (intro handler_returns[of k]) (auto split: if_splits)
qed

lemma step_option: "step s a = Some s' \<Longrightarrow> option s' = option s"
  by (cases rule: step_cases) (auto simp: Start_def emit_def)

lemma step_batchProcessor: "step s a = Some s' \<Longrightarrow> batchProcessor s' = batchProcessor s"
  by (cases rule: step_cases) (auto simp: Start_def emit_def)

lemma NewAggregator_initial:
  assumes "NewAggregator bp numCPU mem fs = Inr s"
  shows "wg s = 0" "workers s = []" "trace s = []" "handlers s = []" "quit s = False"
    "eventQueue s = []" "batchProcessor s = bp" "blocked s = []" "woken s = []"
  using assms by (auto simp: NewAggregator_def Let_def split: if_splits)

lemma run_single: "run s [a] = step s a"
  by (simp split: option.splits)

lemma execute_append:
  "execute bp numCPU mem fs (as @ bs) =
     (case execute bp numCPU mem fs as of None \<Rightarrow> None | Some s \<Rightarrow> run s bs)"
  by (simp add: execute_def run_append split: sum.splits)

text \<open>An invariant of the steps that holds of the fresh aggregator holds after every run.\<close>

lemma execute_preserves:
  assumes "\<And>s a s'. P s \<Longrightarrow> step s a = Some s' \<Longrightarrow> P s'"
    and "\<And>s. NewAggregator bp numCPU mem fs = Inr s \<Longrightarrow> P s"
    and "execute bp numCPU mem fs acts = Some s"
  shows "P s"
proof -
  from assms(3) obtain s0 where s0: "NewAggregator bp numCPU mem fs = Inr s0"
    and r: "run s0 acts = Some s"
    by (auto simp: execute_def split: sum.splits)
  show ?thesis by (rule run_preserves[of P, OF assms(1) assms(2)[OF s0] r])
qed

lemma execute_fields:
  assumes "execute bp numCPU mem fs acts = Some s"
  shows "batchProcessor s = bp"
  using execute_preserves[where P = "\<lambda>t. batchProcessor t = bp", OF _ _ assms]
    step_batchProcessor NewAggregator_initial(7)
  by metis

lemma step_trace_grows: "step s a = Some s' \<Longrightarrow> \<exists>new. trace s' = trace s @ new"
  by (cases rule: step_cases) (auto simp: Start_def emit_def)

lemma run_trace_grows: "run s acts = Some s' \<Longrightarrow> \<exists>new. trace s' = trace s @ new"
proof (induction acts arbitrary: s)
  case Nil
  then show ?case by simp
next
  case (Cons a acts)
  then obtain t where t: "step s a = Some t" and r: "run t acts = Some s'"
    by (auto split: option.splits)
  from step_trace_grows[OF t] Cons.IH[OF r] show ?case by auto
qed

lemma step_quit: "step s a = Some s' \<Longrightarrow> quit s \<Longrightarrow> quit s'"
  by (cases rule: step_cases) (auto simp: Start_def emit_def)

lemmas eval_defs = execute_def NewAggregator_def Start_def Enqueue_def chan_send_def Stop_def
  SafeStop_def SafeStop_tick_def wg_Wait_def wg_Wait_blocks_def wg_Wait_resumes_def
  wg_released_def emit_def close_quit_def commit_def at_pc_def
  work_begin_def work_select_def work_drain_def work_call_def work_return_def dispatches_def
  path_of_def recovered_def batchProcess_def batchProcess_returns_def
  stop_and_drain_def timer_Stop_def timer_Reset_def timer_recv_def timer_expire_def NewTimer_def
  spawned_def makechan_panics_def makechan_fatal_def makeslice_panics_def makeslice_fatal_def
  maxAlloc_def Let_def Minute_def Millisecond_def

section \<open>The completion counter\<close>

lemma weight_simps:
  "pc w = Spawned \<Longrightarrow> weight w = 0" "pc w = Selecting \<Longrightarrow> weight w = 1"
  "pc w = Calling p \<Longrightarrow> weight w = 2" "pc w = Draining \<Longrightarrow> weight w = 1"
  "pc w = Returned \<Longrightarrow> weight w = 0"
  by (simp_all add: weight_def in_loop_def calling_def)

lemma weight_nonneg: "0 \<le> weight w"
  by (simp add: weight_def)

lemma counted_update:
  assumes "i < length ws"
  shows "counted (ws[i := w]) = counted ws - weight (ws ! i) + weight w"
  using sum_list_map_update[OF assms, of weight w] by (simp add: counted_def)

lemma counted_append: "counted (xs @ ys) = counted xs + counted ys"
  by (simp add: counted_def)

lemma counted_spawned: "counted (replicate n spawned) = 0"
  by (induction n) (simp_all add: counted_def weight_simps(1) spawned_def)

lemma counted_filters:
  "counted ws = int (length (filter in_loop ws)) + int (length (filter calling ws))"
  by (induction ws) (simp_all add: counted_def weight_def)

lemma weight_le_counted: "i < length ws \<Longrightarrow> weight (ws ! i) \<le> counted ws"
proof (induction ws arbitrary: i)
  case Nil
  then show ?case by simp
next
  case (Cons a ws)
  have c: "0 \<le> counted ws"
    unfolding counted_def by (rule sum_list_nonneg) (auto simp: weight_nonneg)
  show ?case
  proof (cases i)
    case 0
    with c show ?thesis by (simp add: counted_def)
  next
    case (Suc j)
    with Cons.prems have "weight (ws ! j) \<le> counted ws" by (intro Cons.IH) simp
    with weight_nonneg[of a] show ?thesis by (simp add: Suc counted_def)
  qed
qed

lemma work_begin_weight:
  "wg_delta (snd (work_begin opt tm fired)) = weight (fst (work_begin opt tm fired))"
  by (simp add: work_begin_def Let_def weight_simps spawned_def split: option.splits)

lemma work_select_weight:
  assumes "pc w = Selecting"
  shows "wg_delta (snd (work_select opt bp tm c w)) = weight (fst (work_select opt bp tm c w)) - 1"
  using assms
  by (cases c)
    (auto simp: work_select_def Let_def recovered_def weight_simps case_prod_beta
      batchProcess_cut batchProcess_returns_simps split: option.splits)

lemma work_call_weight:
  "wg_delta (snd (work_call c w)) = 1" "weight (fst (work_call c w)) = 2"
  by (cases c; simp add: work_call_def weight_simps)+

lemma work_return_weight:
  "wg_delta (snd (work_return opt bp p w)) = weight (fst (work_return opt bp p w)) - 2"
  by (cases p)
    (auto simp: work_return_def Let_def recovered_def weight_simps case_prod_beta
      batchProcess_returns_simps split: option.splits)

lemma work_drain_weight: "work_drain w = Some w' \<Longrightarrow> weight w' = 1"
  by (auto simp: work_drain_def weight_simps split: option.splits)

lemma commit_counted:
  assumes "wg s = counted (workers s)" and "i < length (workers s)"
    and "wg_delta (snd r) = weight (fst r) - weight (workers s ! i)"
  shows "wg (commit i r s) = counted (workers (commit i r s))"
  using assms by (simp add: counted_update)

text \<open>The counter is what the workers have added to it and not yet taken back.\<close>

lemma step_counted:
  assumes inv: "wg s = counted (workers s)" and st: "step s a = Some s'"
  shows "wg s' = counted (workers s')"
  using st
proof (cases rule: step_cases)
  case (begins i fired)
  show ?thesis unfolding begins(4)
    using begins(3) by (intro commit_counted[OF inv begins(2)]) (simp add: work_begin_weight weight_simps)
next
  case (selects i c q)
  have inv0: "wg (s\<lparr>eventQueue := q\<rparr>) = counted (workers (s\<lparr>eventQueue := q\<rparr>))"
    using inv by simp
  show ?thesis unfolding selects(3)
    using selects(1,2) by (intro commit_counted[OF inv0]) (simp_all add: work_select_weight weight_simps)
next
  case (enters i c q)
  have inv0: "wg (s\<lparr>eventQueue := q\<rparr>) = counted (workers (s\<lparr>eventQueue := q\<rparr>))"
    using inv by simp
  show ?thesis unfolding enters(4)
    using enters(1,2) by (intro commit_counted[OF inv0]) (simp_all add: work_call_weight weight_simps)
next
  case (returns i p)
  show ?thesis unfolding returns(4)
    using returns(3) by (intro commit_counted[OF inv returns(2)]) (simp add: work_return_weight weight_simps)
next
  case (drained i w)
  show ?thesis unfolding drained(5)
    using work_drain_weight[OF drained(4)] drained(3)
    by (intro commit_counted[OF inv drained(2)]) (simp add: weight_simps)
next
  case (expires i)
  with inv show ?thesis
    by (simp add: counted_update weight_def in_loop_def calling_def)
next
  case start
  with inv show ?thesis by (simp add: Start_def counted_append counted_spawned)
qed (use inv in \<open>simp_all add: emit_def\<close>)

lemma execute_counter:
  assumes "execute bp numCPU mem optionFuncs acts = Some s"
  shows "wg s = counted (workers s)"
  using execute_preserves[where P = "\<lambda>t. wg t = counted (workers t)", OF _ _ assms]
    step_counted NewAggregator_initial(1,2)
  by (metis counted_def list.simps(8) sum_list.Nil)

text \<open>The counter is the balance of the \<^verbatim>\<open>wg.Add(1)\<close> and \<^verbatim>\<open>wg.Done()\<close> the code has run.\<close>

lemma step_balance:
  assumes inv: "wg s = wg_delta (trace s)" and st: "step s a = Some s'"
  shows "wg s' = wg_delta (trace s')"
  using st by (cases rule: step_cases) (use inv in \<open>simp_all add: emit_def Start_def\<close>)

lemma execute_balance:
  assumes "execute bp numCPU mem optionFuncs acts = Some s"
  shows "wg s = wg_delta (trace s)"
  using execute_preserves[where P = "\<lambda>t. wg t = wg_delta (trace t)", OF _ _ assms]
    step_balance NewAggregator_initial(1,3)
  by (metis wg_delta_simps(1))

text \<open>No waiter is registered while the counter is zero.\<close>

lemma step_blocked_zero:
  assumes inv: "wg s = 0 \<longrightarrow> blocked s = []" and st: "step s a = Some s'"
  shows "wg s' = 0 \<longrightarrow> blocked s' = []"
  using st by (cases rule: step_cases) (use inv in \<open>simp_all add: emit_def Start_def\<close>)

lemma execute_blocked:
  assumes "execute bp numCPU mem optionFuncs acts = Some s"
  shows "wg s = 0 \<longrightarrow> blocked s = []"
  using execute_preserves[where P = "\<lambda>t. wg t = 0 \<longrightarrow> blocked t = []", OF _ _ assms]
    step_blocked_zero NewAggregator_initial(8)
  by metis

text \<open>A waiter is released only by the counter reaching zero.\<close>

lemma step_woken:
  assumes "woken s = []" and st: "step s a = Some s'"
  shows "woken s' = [] \<or> wg s' = 0"
  using st by (cases rule: step_cases) (use assms(1) in \<open>simp_all add: emit_def Start_def\<close>)

text \<open>Every call of the batch handler comes directly after a \<^verbatim>\<open>wg.Add(1)\<close>.\<close>

lemma guarded_weaken: "guarded False es \<Longrightarrow> guarded b es"
proof (cases es)
  case Nil
  then show ?thesis by simp
next
  case (Cons e es')
  then show "guarded False es \<Longrightarrow> ?thesis" by (cases e) auto
qed

lemma guarded_append: "guarded b xs \<Longrightarrow> guarded False ys \<Longrightarrow> guarded b (xs @ ys)"
  by (induction b xs rule: guarded.induct) (auto intro: guarded_weaken)

lemma guarded_no_calls: "dispatched es = [] \<Longrightarrow> guarded b es"
proof (induction es arbitrary: b)
  case Nil
  then show ?case by simp
next
  case (Cons e es)
  then show ?case by (cases e) auto
qed

lemma work_begin_guarded: "guarded False (snd (work_begin opt tm fired))"
  by (simp add: work_begin_def Let_def split: option.splits)

lemma work_call_guarded: "guarded False (snd (work_call c w))"
  by (cases c) (simp_all add: work_call_def)

lemma work_return_guarded: "guarded False (snd (work_return opt bp p w))"
  by (rule guarded_no_calls, cases p)
    (auto simp: work_return_def Let_def recovered_def case_prod_beta
      batchProcess_returns_simps split: option.splits)

lemma work_select_guarded: "guarded False (snd (work_select opt bp tm c w))"
  by (cases c)
    (auto simp: work_select_def Let_def recovered_def case_prod_beta batchProcess_cut
      batchProcess_returns_simps guarded_no_calls split: option.splits)

lemma step_guarded:
  assumes inv: "guarded False (trace s)" and st: "step s a = Some s'"
  shows "guarded False (trace s')"
  using st
  by (cases rule: step_cases)
    (use inv in \<open>simp_all add: emit_def Start_def guarded_append work_begin_guarded
       work_call_guarded work_return_guarded work_select_guarded\<close>)

lemma execute_guarded:
  assumes "execute bp numCPU mem optionFuncs acts = Some s"
  shows "guarded False (trace s)"
  using execute_preserves[where P = "\<lambda>t. guarded False (trace t)", OF _ _ assms]
    step_guarded NewAggregator_initial(3)
  by (metis guarded.simps(1))

text \<open>
  When the call of the batch handler has ended, the next operation on the counter is the
  deferred \<^verbatim>\<open>wg.Done()\<close> of \<open>batchProcess\<close>, and the handler is not called again before it.
\<close>

lemma batchProcess_returns_shape:
  "snd (batchProcess_returns opt bp items)
     = butlast (snd (batchProcess_returns opt bp items)) @ [WgDone]
   \<and> (\<forall>e \<in> set (butlast (snd (batchProcess_returns opt bp items))). wg_of e = 0)
   \<and> dispatched (butlast (snd (batchProcess_returns opt bp items))) = []"
  by (cases "bp items") (simp_all add: batchProcess_returns_def)

lemma work_return_shape:
  "\<exists>mid rest. snd (work_return opt bp p w) = mid @ WgDone # rest
      \<and> (\<forall>e \<in> set mid. wg_of e = 0) \<and> dispatched mid = [] \<and> dispatched rest = []"
proof -
  obtain mid where m: "snd (batchProcess_returns opt bp (batch w)) = mid @ [WgDone]"
    "\<forall>e \<in> set mid. wg_of e = 0" "dispatched mid = []"
    using batchProcess_returns_shape[of opt bp "batch w"] by blast
  have "\<exists>rest. snd (work_return opt bp p w) = mid @ WgDone # rest \<and> dispatched rest = []"
    by (cases p)
      (auto simp: work_return_def Let_def recovered_def case_prod_beta m(1) split: option.splits)
  with m(2,3) show ?thesis by blast
qed

lemma work_select_shape:
  "dispatched (snd (work_select opt bp tm c w)) = []
   \<or> (\<exists>b mid rest. snd (work_select opt bp tm c w) = [WgAdd, Call b] @ mid @ WgDone # rest
         \<and> (\<forall>e \<in> set mid. wg_of e = 0) \<and> dispatched mid = [] \<and> dispatched rest = [])"
proof -
  have *: "\<exists>mid rest. [WgAdd, Call b] @ snd (batchProcess_returns opt bp b) @ tl
                        = [WgAdd, Call b] @ mid @ WgDone # rest
      \<and> (\<forall>e \<in> set mid. wg_of e = 0) \<and> dispatched mid = [] \<and> dispatched rest = []"
    if "dispatched tl = []" for b tl
  proof -
    obtain mid where m: "snd (batchProcess_returns opt bp b) = mid @ [WgDone]"
      "\<forall>e \<in> set mid. wg_of e = 0" "dispatched mid = []"
      using batchProcess_returns_shape[of opt bp b] by blast
    show ?thesis using m(2,3) that by (intro exI[of _ mid] exI[of _ tl]) (simp add: m(1))
  qed
  show ?thesis
  proof (cases c)
    case (Case_req req)
    show ?thesis
    proof (cases "int (length (batch w @ [req])) < BatchSize opt")
      case True
      with Case_req show ?thesis by (simp add: work_select_def Let_def)
    next
      case False
      with Case_req have "\<exists>tl. snd (work_select opt bp tm c w)
          = [WgAdd, Call (batch w @ [req])] @ snd (batchProcess_returns opt bp (batch w @ [req])) @ tl
          \<and> dispatched tl = []"
        by (auto simp: work_select_def Let_def recovered_def case_prod_beta batchProcess_cut
            split: option.splits)
      with * show ?thesis by metis
    qed
  next
    case Case_linger
    show ?thesis
    proof (cases "batch w = []")
      case True
      with Case_linger show ?thesis by (simp add: work_select_def Let_def)
    next
      case False
      with Case_linger have "\<exists>tl. snd (work_select opt bp tm c w)
          = [WgAdd, Call (batch w)] @ snd (batchProcess_returns opt bp (batch w)) @ tl
          \<and> dispatched tl = []"
        by (auto simp: work_select_def Let_def recovered_def case_prod_beta batchProcess_cut)
      with * show ?thesis by metis
    qed
  next
    case Case_quit
    show ?thesis
    proof (cases "batch w = []")
      case True
      with Case_quit show ?thesis by (simp add: work_select_def Let_def)
    next
      case False
      with Case_quit have "\<exists>tl. snd (work_select opt bp tm c w)
          = [WgAdd, Call (batch w)] @ snd (batchProcess_returns opt bp (batch w)) @ tl
          \<and> dispatched tl = []"
        by (auto simp: work_select_def Let_def recovered_def case_prod_beta batchProcess_cut)
      with * show ?thesis by metis
    qed
  qed
qed

section \<open>Batch sizes\<close>

lemma work_select_bounded:
  assumes "1 \<le> BatchSize opt" and "int (length (batch w)) < BatchSize opt"
  shows "(pc (fst (work_select opt bp tm c w)) = Selecting \<longrightarrow>
            int (length (batch (fst (work_select opt bp tm c w)))) < BatchSize opt)
       \<and> (\<forall>items \<in> set (dispatched (snd (work_select opt bp tm c w))).
            1 \<le> length items \<and> int (length items) \<le> BatchSize opt)"
  using assms
  by (cases c)
    (auto simp: work_select_def Let_def recovered_def Suc_le_eq case_prod_beta batchProcess_cut
      batchProcess_returns_simps split: option.splits)

lemma work_call_bounded:
  assumes "1 \<le> BatchSize opt" and "int (length (batch w)) < BatchSize opt"
    and "dispatches opt c w"
  shows "pc (fst (work_call c w)) \<noteq> Selecting
       \<and> (\<forall>items \<in> set (dispatched (snd (work_call c w))).
            1 \<le> length items \<and> int (length items) \<le> BatchSize opt)"
  using assms by (cases c) (auto simp: work_call_def dispatches_def Suc_le_eq)

lemma work_return_bounded:
  "(pc (fst (work_return opt bp p w)) = Selecting \<longrightarrow> batch (fst (work_return opt bp p w)) = [])
   \<and> dispatched (snd (work_return opt bp p w)) = []"
  by (cases p)
    (auto simp: work_return_def Let_def recovered_def case_prod_beta batchProcess_returns_simps
      split: option.splits)

lemma work_begin_bounded:
  "(pc (fst (work_begin opt tm fired)) = Selecting \<longrightarrow> batch (fst (work_begin opt tm fired)) = [])
   \<and> dispatched (snd (work_begin opt tm fired)) = []"
  by (simp add: work_begin_def Let_def spawned_def split: option.splits)

lemma commit_bounded:
  assumes "batches_bounded opt s" and "1 \<le> BatchSize opt"
    and "pc (fst r) = Selecting \<longrightarrow> int (length (batch (fst r))) < BatchSize opt"
    and "\<forall>items \<in> set (dispatched (snd r)). 1 \<le> length items \<and> int (length items) \<le> BatchSize opt"
  shows "batches_bounded opt (commit i r s)"
  using assms set_update_subset_insert[of "workers s" i "fst r"]
  by (auto simp: batches_bounded_def)

lemma step_bounded:
  assumes inv: "batches_bounded opt s" and b: "1 \<le> BatchSize opt" and st: "step s a = Some s'"
  shows "batches_bounded opt s'"
  using st
proof (cases rule: step_cases)
  case (begins i fired)
  show ?thesis unfolding begins(4)
    using b by (intro commit_bounded[OF inv b]) (auto simp: work_begin_bounded)
next
  case (selects i c q)
  have inv0: "batches_bounded opt (s\<lparr>eventQueue := q\<rparr>)"
    using inv by (simp add: batches_bounded_def)
  have l: "int (length (batch (workers s ! i))) < BatchSize opt"
    using inv selects(1,2) by (auto simp: batches_bounded_def)
  show ?thesis unfolding selects(3)
    using work_select_bounded[OF b l, of "batchProcessor s" "now s" c]
      inv by (intro commit_bounded[OF inv0 b]) (auto simp: batches_bounded_def)
next
  case (enters i c q)
  have inv0: "batches_bounded opt (s\<lparr>eventQueue := q\<rparr>)"
    using inv by (simp add: batches_bounded_def)
  have l: "int (length (batch (workers s ! i))) < BatchSize opt"
    using inv enters(1,2) by (auto simp: batches_bounded_def)
  have d: "dispatches opt c (workers s ! i)"
    using enters(3) inv by (simp add: batches_bounded_def)
  show ?thesis unfolding enters(4)
    using work_call_bounded[OF b l d]
    by (intro commit_bounded[OF inv0 b]) (auto simp: work_call_def split: select.splits)
next
  case (returns i p)
  show ?thesis unfolding returns(4)
    using b by (intro commit_bounded[OF inv b]) (auto simp: work_return_bounded)
next
  case (drained i w)
  show ?thesis unfolding drained(5)
    using b drained(4)
    by (intro commit_bounded[OF inv b]) (auto simp: work_drain_def split: option.splits)
next
  case (expires i)
  show ?thesis unfolding expires(4)
    using inv nth_mem[OF expires(2)]
    by (auto simp: batches_bounded_def dest!: in_set_updateD)
next
  case start
  with inv show ?thesis by (auto simp: Start_def batches_bounded_def spawned_def)
qed (use inv in \<open>auto simp: batches_bounded_def emit_def\<close>)

lemma NewAggregator_bounded:
  "NewAggregator bp numCPU mem fs = Inr s \<Longrightarrow> batches_bounded (option s) s"
  by (auto simp: NewAggregator_def Let_def batches_bounded_def split: if_splits)

section \<open>Queue capacity\<close>

text \<open>
  C9 (as the claim states it, refuted). "For every configuration NewAggregator constructs
  the queue with capacity max(ChannelBufferSize, Workers)": the clamped value goes to
  \<^verbatim>\<open>make(chan interface{}, n)\<close> unguarded. With Workers = -1 and ChannelBufferSize = -2 the
  clamp stores -1 and \<^verbatim>\<open>make\<close> panics; with ChannelBufferSize = \<open>2 ^ 44\<close> the buffer would
  exceed what the runtime allocates and \<^verbatim>\<open>make\<close> panics; with ChannelBufferSize =
  \<open>2 ^ 40\<close> on a machine with \<open>2 ^ 34\<close> bytes of memory the allocation fails. In none of
  them is a queue constructed.
\<close>

theorem NewAggregator_bad_size_constructs_no_queue:
  "NewAggregator (\<lambda>items :: nat list. (Returns_nil :: unit result)) 4 (2 ^ 34)
     [\<lambda>opt. opt\<lparr>Workers := - 1, ChannelBufferSize := - 2\<rparr>] = Inl Makechan_size_out_of_range
   \<and> NewAggregator (\<lambda>items :: nat list. (Returns_nil :: unit result)) 4 (2 ^ 34)
     [\<lambda>opt. opt\<lparr>ChannelBufferSize := 2 ^ 44\<rparr>] = Inl Makechan_size_out_of_range
   \<and> NewAggregator (\<lambda>items :: nat list. (Returns_nil :: unit result)) 4 (2 ^ 34)
     [\<lambda>opt. opt\<lparr>ChannelBufferSize := 2 ^ 40\<rparr>] = Inl Out_of_memory"
  by (simp add: NewAggregator_def makechan_panics_def makechan_fatal_def maxAlloc_def)

text \<open>
  C9 (amended). Let \<open>m\<close> be the larger value of ChannelBufferSize and Workers after the
  option functions have run on the defaults. If \<open>m\<close> is not negative and a channel of \<open>m\<close>
  elements (\<open>16 * m + 96\<close> bytes) is within the runtime's bound and within the memory of
  the machine, NewAggregator returns an aggregator whose queue is empty and has capacity
  \<open>m\<close>; the stored option holds \<open>m\<close> as its ChannelBufferSize and is otherwise what the
  option functions produced. If \<open>m\<close> is negative or beyond the runtime's bound, \<^verbatim>\<open>make\<close>
  panics; if it is beyond the memory of the machine, the allocation fails.
\<close>

theorem NewAggregator_capacity_is_max:
  assumes "opt = foldl (\<lambda>opt optionFunc. optionFunc opt)
                  \<lparr>BatchSize = 8, Workers = numCPU, ChannelBufferSize = 0,
                   LingerTime = 1 * Minute, ErrorHandler = False, Logger = False\<rparr> optionFuncs"
    and "m = max (ChannelBufferSize opt) (Workers opt)"
  shows "(0 \<le> m \<and> 16 * m + 96 \<le> maxAlloc \<and> 16 * m + 96 \<le> mem \<longrightarrow>
            (\<exists>s. NewAggregator bp numCPU mem optionFuncs = Inr s
               \<and> int (capacity s) = m
               \<and> option s = opt\<lparr>ChannelBufferSize := m\<rparr>
               \<and> eventQueue s = []))
       \<and> (m < 0 \<or> maxAlloc < 16 * m + 96 \<longrightarrow>
            NewAggregator bp numCPU mem optionFuncs = Inl Makechan_size_out_of_range)
       \<and> (0 \<le> m \<and> 16 * m + 96 \<le> maxAlloc \<and> mem < 16 * m + 96 \<longrightarrow>
            NewAggregator bp numCPU mem optionFuncs = Inl Out_of_memory)"
  using assms
  by (auto simp: NewAggregator_def Let_def max_def makechan_panics_def makechan_fatal_def)

theorem NewAggregator_capacity_is_max_witness:
  "(\<exists>s. NewAggregator (\<lambda>items :: nat list. (Returns_nil :: unit result)) 4 (2 ^ 34)
          [\<lambda>opt. opt\<lparr>ChannelBufferSize := 2\<rparr>, \<lambda>opt. opt\<lparr>BatchSize := 3\<rparr>] = Inr s
        \<and> capacity s = 4 \<and> ChannelBufferSize (option s) = 4 \<and> BatchSize (option s) = 3)
   \<and> (\<exists>s. NewAggregator (\<lambda>items :: nat list. (Returns_nil :: unit result)) 4 (2 ^ 34)
          [\<lambda>opt. opt\<lparr>ChannelBufferSize := 9\<rparr>] = Inr s
        \<and> capacity s = 9 \<and> ChannelBufferSize (option s) = 9 \<and> Workers (option s) = 4)
   \<and> NewAggregator (\<lambda>items :: nat list. (Returns_nil :: unit result)) 4 (2 ^ 34)
          [\<lambda>opt. opt\<lparr>Workers := - 3, ChannelBufferSize := - 5\<rparr>] = Inl Makechan_size_out_of_range
   \<and> NewAggregator (\<lambda>items :: nat list. (Returns_nil :: unit result)) 4 100
          [\<lambda>opt. opt\<lparr>ChannelBufferSize := 9\<rparr>] = Inl Out_of_memory"
  using NewAggregator_capacity_is_max [OF refl refl, of 4
          "[\<lambda>opt. opt\<lparr>ChannelBufferSize := 2\<rparr>, \<lambda>opt. opt\<lparr>BatchSize := 3\<rparr>]" "2 ^ 34"
          "\<lambda>items :: nat list. (Returns_nil :: unit result)"]
        NewAggregator_capacity_is_max [OF refl refl, of 4
          "[\<lambda>opt. opt\<lparr>ChannelBufferSize := 9\<rparr>]" "2 ^ 34"
          "\<lambda>items :: nat list. (Returns_nil :: unit result)"]
        NewAggregator_capacity_is_max [OF refl refl, of 4
          "[\<lambda>opt. opt\<lparr>Workers := - 3, ChannelBufferSize := - 5\<rparr>]" "2 ^ 34"
          "\<lambda>items :: nat list. (Returns_nil :: unit result)"]
        NewAggregator_capacity_is_max [OF refl refl, of 4
          "[\<lambda>opt. opt\<lparr>ChannelBufferSize := 9\<rparr>]" 100
          "\<lambda>items :: nat list. (Returns_nil :: unit result)"]
  by (auto simp: maxAlloc_def)

section \<open>Dispatch and the error handler\<close>

lemma cancel_update:
  fixes A :: "'m :: cancel_comm_monoid_add"
  assumes "X' + P = X + P'" and "F + P' = P + E"
  shows "(A + F) + X' = (A + X) + E"
proof -
  have "(A + F + X') + P = A + F + (X' + P)" by (simp add: add.assoc)
  also have "\<dots> = A + F + (X + P')" by (simp only: assms(1))
  also have "\<dots> = A + X + (F + P')" by (simp add: ac_simps)
  also have "\<dots> = A + X + (P + E)" by (simp only: assms(2))
  also have "\<dots> = (A + X + E) + P" by (simp add: ac_simps)
  finally show ?thesis by (rule add_right_imp_eq)
qed

lemma mset_concat_map_update:
  "i < length ws \<Longrightarrow>
     mset (concat (map g (ws[i := w]))) + mset (g (ws ! i)) = mset (concat (map g ws)) + mset (g w)"
proof (induction ws arbitrary: i)
  case Nil
  then show ?case by simp
next
  case (Cons a ws)
  show ?case
  proof (cases i)
    case 0
    then show ?thesis by (simp add: ac_simps)
  next
    case (Suc j)
    with Cons.prems have "j < length ws" by simp
    from Cons.IH[OF this] show ?thesis by (simp add: Suc add.assoc)
  qed
qed

lemma in_flight_due:
  "concat (map f (in_flight ws)) = concat (map (\<lambda>w. concat (map f (flying w))) ws)"
  by (induction ws) (simp_all add: in_flight_def)

lemma flying_simps:
  "pc w = Spawned \<Longrightarrow> flying w = []" "pc w = Selecting \<Longrightarrow> flying w = []"
  "pc w = Calling p \<Longrightarrow> flying w = [batch w]" "pc w = Draining \<Longrightarrow> flying w = []"
  "pc w = Returned \<Longrightarrow> flying w = []"
  by (simp_all add: flying_def calling_def)

lemma holds_simps:
  "pc w = Spawned \<Longrightarrow> holds w = []" "pc w = Selecting \<Longrightarrow> holds w = batch w"
  "pc w = Calling p \<Longrightarrow> holds w = []" "pc w = Draining \<Longrightarrow> holds w = []"
  "pc w = Returned \<Longrightarrow> holds w = []"
  by (simp_all add: holds_def)

text \<open>What one step of a worker reports and dispatches, and what it holds afterwards.\<close>

lemma not_reported [simp]:
  "\<not> reported WgAdd" "\<not> reported WgDone" "\<not> reported (Call items)"
  "\<not> reported (TimerReset d)" "\<not> reported (Errorc ''recover worker as bad thing happens %+v'')"
  "\<not> reported (Returns c)" "\<not> reported (ClosePanic c)" "\<not> reported (ReusePanic c)"
  by (simp_all add: reported_def)

lemma work_begin_reports:
  "filter reported (snd (work_begin opt tm fired)) = []"
  "dispatched (snd (work_begin opt tm fired)) = []"
  "launched (snd (work_begin opt tm fired)) = []"
  "flying (fst (work_begin opt tm fired)) = []"
  "holds (fst (work_begin opt tm fired)) = []"
  by (simp_all add: work_begin_def Let_def spawned_def flying_simps holds_simps
      split: option.splits)

lemma work_select_reports:
  assumes "pc w = Selecting"
  shows "filter reported (snd (work_select opt bp tm c w))
           = concat (map (due opt bp) (dispatched (snd (work_select opt bp tm c w))))"
    and "flying (fst (work_select opt bp tm c w)) = []"
    and "launched (snd (work_select opt bp tm c w))
           = launched (concat (map (due opt bp) (dispatched (snd (work_select opt bp tm c w)))))"
  using assms
  by (cases c;
      auto simp: work_select_def Let_def recovered_def case_prod_beta batchProcess_cut
        batchProcess_returns_simps flying_simps split: option.splits)+

lemma work_select_holds:
  assumes "pc w = Selecting"
  shows "mset (concat (dispatched (snd (work_select opt bp tm c w))))
           + mset (holds (fst (work_select opt bp tm c w)))
         = mset (holds w) + mset (case c of Case_req x \<Rightarrow> [x] | _ \<Rightarrow> [])"
  using assms
  by (cases c)
    (auto simp: work_select_def Let_def recovered_def case_prod_beta batchProcess_cut
      batchProcess_returns_simps holds_simps split: option.splits)

lemma work_call_reports:
  "filter reported (snd (work_call c w)) = []"
  "launched (snd (work_call c w)) = []"
  "dispatched (snd (work_call c w)) = [batch w @ (case c of Case_req x \<Rightarrow> [x] | _ \<Rightarrow> [])]"
  "flying (fst (work_call c w)) = [batch w @ (case c of Case_req x \<Rightarrow> [x] | _ \<Rightarrow> [])]"
  "holds (fst (work_call c w)) = []"
  by (cases c; simp add: work_call_def flying_simps holds_simps)+

lemma work_return_reports:
  "filter reported (snd (work_return opt bp p w)) = due opt bp (batch w)"
  "launched (snd (work_return opt bp p w)) = launched (due opt bp (batch w))"
  "dispatched (snd (work_return opt bp p w)) = []"
  "flying (fst (work_return opt bp p w)) = []"
  "holds (fst (work_return opt bp p w)) = []"
  by (cases p;
      auto simp: work_return_def Let_def recovered_def case_prod_beta batchProcess_returns_simps
        flying_simps holds_simps split: option.splits)+

lemma work_drain_reports:
  "work_drain w = Some w' \<Longrightarrow> flying w' = [] \<and> holds w' = []"
  by (auto simp: work_drain_def flying_simps holds_simps split: option.splits)

lemma commit_settled:
  assumes inv: "settled opt bp s" and i: "i < length (workers s)"
    and w: "mset (filter reported (snd r)) + mset (concat (map (due opt bp) (flying (fst r))))
            = mset (concat (map (due opt bp) (flying (workers s ! i))))
              + mset (concat (map (due opt bp) (dispatched (snd r))))"
  shows "settled opt bp (commit i r s)"
proof -
  let ?g = "\<lambda>w. concat (map (due opt bp) (flying w))"
  note u = mset_concat_map_update[OF i, of ?g "fst r"]
  have "mset (filter reported (trace (commit i r s)))
          + mset (concat (map (due opt bp) (in_flight (workers (commit i r s)))))
        = (mset (filter reported (trace s)) + mset (filter reported (snd r)))
          + mset (concat (map ?g ((workers s)[i := fst r])))"
    by (simp add: in_flight_due)
  also have "\<dots> = (mset (filter reported (trace s)) + mset (concat (map ?g (workers s))))
                   + mset (concat (map (due opt bp) (dispatched (snd r))))"
    by (rule cancel_update[OF u w])
  also have "\<dots> = mset (concat (map (due opt bp) (dispatched (trace s))))
                   + mset (concat (map (due opt bp) (dispatched (snd r))))"
    using inv by (simp only: settled_def in_flight_due)
  also have "\<dots> = mset (concat (map (due opt bp) (dispatched (trace (commit i r s)))))"
    by simp
  finally show ?thesis unfolding settled_def .
qed

lemma step_settled:
  assumes inv: "settled (option s) (batchProcessor s) s" and st: "step s a = Some s'"
  shows "settled (option s') (batchProcessor s') s'"
proof -
  have "settled (option s) (batchProcessor s) s'"
    using st
  proof (cases rule: step_cases)
    case (begins i fired)
    show ?thesis unfolding begins(4)
      using begins(3)
      by (intro commit_settled[OF inv begins(2)]) (simp add: work_begin_reports flying_simps)
  next
    case (selects i c q)
    have inv0: "settled (option s) (batchProcessor s) (s\<lparr>eventQueue := q\<rparr>)"
      using inv by (simp add: settled_def)
    show ?thesis unfolding selects(3)
      using selects(1,2)
      by (intro commit_settled[OF inv0]) (simp_all add: work_select_reports flying_simps)
  next
    case (enters i c q)
    have inv0: "settled (option s) (batchProcessor s) (s\<lparr>eventQueue := q\<rparr>)"
      using inv by (simp add: settled_def)
    show ?thesis unfolding enters(4)
      using enters(1,2)
      by (intro commit_settled[OF inv0]) (simp_all add: work_call_reports flying_simps)
  next
    case (returns i p)
    show ?thesis unfolding returns(4)
      using returns(3)
      by (intro commit_settled[OF inv returns(2)]) (simp add: work_return_reports flying_simps)
  next
    case (drained i w)
    show ?thesis unfolding drained(5)
      using drained(3) work_drain_reports[OF drained(4)]
      by (intro commit_settled[OF inv drained(2)]) (simp add: flying_simps)
  next
    case (expires i)
    have "flying ((workers s ! i)\<lparr>lingerTimer := timer_expire (lingerTimer (workers s ! i))\<rparr>)
            = flying (workers s ! i)"
      by (simp add: flying_def calling_def)
    with mset_concat_map_update[OF expires(2),
        of "\<lambda>w. concat (map (due (option s) (batchProcessor s)) (flying w))"
          "(workers s ! i)\<lparr>lingerTimer := timer_expire (lingerTimer (workers s ! i))\<rparr>"]
    show ?thesis using inv by (simp add: settled_def in_flight_due expires(4))
  next
    case start
    have "in_flight (ws @ replicate n spawned) = in_flight ws" for n and ws :: "'a worker list"
      by (induction n) (simp_all add: in_flight_def flying_simps(1) spawned_def replicate_append_same [symmetric] del: replicate_Suc)
    with inv start show ?thesis by (simp add: settled_def Start_def)
  qed (use inv in \<open>simp_all add: settled_def emit_def\<close>)
  then show ?thesis using step_option[OF st] step_batchProcessor[OF st] by simp
qed

lemma commit_accounted:
  assumes i: "i < length (workers s)"
    and w: "mset (concat (dispatched (snd r))) + mset (holds (fst r))
            = mset (holds (workers s ! i)) + taken"
  shows "accounted (commit i r (s\<lparr>eventQueue := q\<rparr>))
           = mset q + mset (held (workers s)) + mset (concat (dispatched (trace s))) + taken"
proof -
  note u = mset_concat_map_update[OF i, of holds "fst r"]
  from cancel_update[OF u w, of "mset q + mset (concat (dispatched (trace s)))"]
  show ?thesis by (simp add: accounted_def held_def ac_simps)
qed

lemma enqueued_Cons: "enqueued (a # as) = enqueued [a] @ enqueued as"
  by (cases a) simp_all

lemma held_spawned: "held (ws @ replicate n spawned) = held ws"
  by (induction n)
    (simp_all add: held_def holds_simps(1) spawned_def replicate_append_same [symmetric]
      del: replicate_Suc)

text \<open>A step moves items between the queue, the batches held and the batches dispatched.\<close>

lemma step_accounted:
  assumes st: "step s a = Some s'"
  shows "accounted s' = accounted s + mset (enqueued [a])"
  using st
proof (cases rule: step_cases)
  case (begins i fired)
  have "accounted (commit i (work_begin (option s) (now s) fired) (s\<lparr>eventQueue := eventQueue s\<rparr>))
          = mset (eventQueue s) + mset (held (workers s)) + mset (concat (dispatched (trace s))) + {#}"
    using begins(3) by (intro commit_accounted[OF begins(2)]) (simp add: work_begin_reports holds_simps)
  then show ?thesis by (simp add: begins(1,4) accounted_def)
next
  case (selects i c q)
  have "accounted s' = mset q + mset (held (workers s)) + mset (concat (dispatched (trace s)))
                         + mset (case c of Case_req x \<Rightarrow> [x] | _ \<Rightarrow> [])"
    unfolding selects(3)
    using selects(2) by (intro commit_accounted[OF selects(1)]) (simp add: work_select_holds)
  with selects(4) show ?thesis by (cases c) (simp_all add: accounted_def)
next
  case (enters i c q)
  have "accounted s' = mset q + mset (held (workers s)) + mset (concat (dispatched (trace s)))
                         + mset (case c of Case_req x \<Rightarrow> [x] | _ \<Rightarrow> [])"
    unfolding enters(4)
    using enters(2)
    by (intro commit_accounted[OF enters(1)]) (simp add: work_call_reports holds_simps)
  with enters(5) show ?thesis by (cases c) (simp_all add: accounted_def)
next
  case (returns i p)
  have "accounted (commit i (work_return (option s) (batchProcessor s) p (workers s ! i))
                     (s\<lparr>eventQueue := eventQueue s\<rparr>))
          = mset (eventQueue s) + mset (held (workers s)) + mset (concat (dispatched (trace s))) + {#}"
    using returns(3)
    by (intro commit_accounted[OF returns(2)]) (simp add: work_return_reports holds_simps)
  then show ?thesis by (simp add: returns(1,4) accounted_def)
next
  case (drained i w)
  have "accounted (commit i (w, []) (s\<lparr>eventQueue := eventQueue s\<rparr>))
          = mset (eventQueue s) + mset (held (workers s)) + mset (concat (dispatched (trace s))) + {#}"
    using drained(3) work_drain_reports[OF drained(4)]
    by (intro commit_accounted[OF drained(2)]) (simp add: holds_simps)
  then show ?thesis by (simp add: drained(1,5) accounted_def)
next
  case (expires i)
  have "holds ((workers s ! i)\<lparr>lingerTimer := timer_expire (lingerTimer (workers s ! i))\<rparr>)
          = holds (workers s ! i)"
    by (simp add: holds_def)
  with mset_concat_map_update[OF expires(2), of holds
      "(workers s ! i)\<lparr>lingerTimer := timer_expire (lingerTimer (workers s ! i))\<rparr>"]
  show ?thesis by (simp add: accounted_def held_def expires(1,4))
next
  case start
  then show ?thesis by (simp add: accounted_def Start_def held_spawned)
next
  case (closes c ps)
  then show ?thesis by (auto simp: accounted_def)
next
  case (polls ps)
  then show ?thesis by (auto simp: accounted_def)
qed (simp_all add: accounted_def emit_def)

lemma run_accounted:
  "run s acts = Some s' \<Longrightarrow> accounted s' = accounted s + mset (enqueued acts)"
proof (induction acts arbitrary: s)
  case Nil
  then show ?case by simp
next
  case (Cons a acts)
  then obtain t where t: "step s a = Some t" and r: "run t acts = Some s'"
    by (auto split: option.splits)
  from step_accounted[OF t] Cons.IH[OF r] show ?case
    by (subst enqueued_Cons) (simp add: ac_simps)
qed

text \<open>The error handler invocations still running were launched by a \<^verbatim>\<open>go\<close> statement.\<close>

lemma remove_nth_subset: "k < length xs \<Longrightarrow> mset (take k xs @ drop (Suc k) xs) \<subseteq># mset xs"
proof -
  assume k: "k < length xs"
  have e: "mset xs = mset (take k xs @ drop (Suc k) xs) + {#xs ! k#}"
    by (subst id_take_nth_drop[OF k]) simp
  show ?thesis unfolding e by simp
qed

lemma step_handlers:
  assumes inv: "mset (handlers s) \<subseteq># mset (launched (trace s))" and st: "step s a = Some s'"
  shows "mset (handlers s') \<subseteq># mset (launched (trace s'))"
  using st
proof (cases rule: step_cases)
  case (handler_returns k)
  from remove_nth_subset[OF handler_returns(2)] inv show ?thesis
    unfolding handler_returns(3) by (auto intro: subset_mset.order_trans)
qed (use inv in \<open>simp_all add: emit_def Start_def\<close>)

text \<open>
  C7. In every state the program can reach, under every schedule, whether a dispatch ran
  in one piece or was in flight while other goroutines ran: each call of the batch
  handler that returned an error has been followed by exactly one report, and no report
  was issued for anything else. With an error handler configured the report is the
  statement \<^verbatim>\<open>go agt.option.ErrorHandler(err, items, agt.batchProcessor, agt)\<close> with that
  error, that batch and the batch handler itself; the invocations still running are among
  those so launched, and the worker goes on without waiting for them. With none
  configured the report is the log line, when a logger is present, and nothing
  otherwise. The engine does not dispatch the batch again: the items of the batches the
  handler was called with are items that were enqueued, each at most as often as it was
  enqueued. (Lemma \<open>run_accounted\<close> says where the others are: in the queue or in a batch
  held at a select.)
\<close>

theorem failed_dispatch_reported_once:
  assumes "execute bp numCPU mem optionFuncs acts = Some s"
  shows "mset (filter reported (trace s))
           + mset (concat (map (due (option s) bp) (in_flight (workers s))))
         = mset (concat (map (due (option s) bp) (dispatched (trace s))))
       \<and> mset (handlers s) \<subseteq># mset (launched (trace s))
       \<and> mset (concat (dispatched (trace s))) \<subseteq># mset (enqueued acts)"
proof -
  from assms obtain s0 where s0: "NewAggregator bp numCPU mem optionFuncs = Inr s0"
    and r: "run s0 acts = Some s"
    by (auto simp: execute_def split: sum.splits)
  note i = NewAggregator_initial[OF s0]
  have "settled (option s) (batchProcessor s) s"
    by (rule run_preserves[where P = "\<lambda>t. settled (option t) (batchProcessor t) t",
          OF step_settled _ r])
      (simp_all add: settled_def in_flight_def i)
  then have A: "mset (filter reported (trace s))
           + mset (concat (map (due (option s) bp) (in_flight (workers s))))
         = mset (concat (map (due (option s) bp) (dispatched (trace s))))"
    by (simp add: settled_def execute_fields[OF assms])
  have B: "mset (handlers s) \<subseteq># mset (launched (trace s))"
    by (rule run_preserves[where P = "\<lambda>t. mset (handlers t) \<subseteq># mset (launched (trace t))",
          OF step_handlers _ r])
      (simp_all add: i)
  have "mset (eventQueue s) + mset (held (workers s)) + mset (concat (dispatched (trace s)))
         = mset (enqueued acts)"
    using run_accounted[OF r] by (simp add: accounted_def held_def i)
  then have C: "mset (concat (dispatched (trace s))) \<subseteq># mset (enqueued acts)"
    by (metis mset_subset_eq_add_right)
  from A B C show ?thesis by simp
qed

theorem failed_dispatch_reported_once_witness:
  "(\<exists>s. execute (\<lambda>items :: nat list. Returns_err ''boom'') 1 (2 ^ 34)
          [\<lambda>opt. opt\<lparr>BatchSize := 3, ErrorHandler := True\<rparr>]
          [Call_Start, Work_begins 0 False, Call_Enqueue 1, Select_req 0, Call_Enqueue 2,
           Select_req 0, Call_Enqueue 3, Select_req 0] = Some s
      \<and> dispatched (trace s) = [[1, 2, 3]]
      \<and> in_flight (workers s) = []
      \<and> mset (filter reported (trace s))
          = {#GoErrorHandler ''boom'' [1, 2, 3] (\<lambda>items. Returns_err ''boom'')#}
      \<and> mset (handlers s) \<subseteq># {#(''boom'', [1, 2, 3])#}
      \<and> mset (concat (dispatched (trace s))) \<subseteq># {#1, 2, 3#})
   \<and> (\<exists>s. execute (\<lambda>items :: nat list. Returns_err ''boom'') 1 (2 ^ 34)
          [\<lambda>opt. opt\<lparr>BatchSize := 3, ErrorHandler := True\<rparr>]
          [Call_Start, Work_begins 0 False, Call_Enqueue 1, Select_req 0, Call_Enqueue 2,
           Select_req 0, Call_Enqueue 3, Enters_req 0] = Some s
      \<and> dispatched (trace s) = [[1, 2, 3]]
      \<and> in_flight (workers s) = [[1, 2, 3]]
      \<and> mset (filter reported (trace s))
          + {#GoErrorHandler ''boom'' [1, 2, 3] (\<lambda>items. Returns_err ''boom'')#}
          = {#GoErrorHandler ''boom'' [1, 2, 3] (\<lambda>items. Returns_err ''boom'')#})
   \<and> (\<exists>s. execute (\<lambda>items :: nat list. Returns_err ''boom'') 1 (2 ^ 34)
          [\<lambda>opt. opt\<lparr>BatchSize := 3, Logger := True\<rparr>]
          [Call_Start, Work_begins 0 False, Call_Enqueue 1, Select_req 0, Call_Enqueue 2,
           Select_req 0, Call_Enqueue 3, Enters_req 0, Call_returns 0] = Some s
      \<and> dispatched (trace s) = [[1, 2, 3]]
      \<and> in_flight (workers s) = []
      \<and> mset (filter reported (trace s))
          = {#Errorc ''error happens in batchProcess and is skipped''#}
      \<and> mset (handlers s) \<subseteq># {#})"
proof -
  have "\<exists>s. execute (\<lambda>items :: nat list. Returns_err ''boom'') 1 (2 ^ 34)
          [\<lambda>opt. opt\<lparr>BatchSize := 3, ErrorHandler := True\<rparr>]
          [Call_Start, Work_begins 0 False, Call_Enqueue 1, Select_req 0, Call_Enqueue 2,
           Select_req 0, Call_Enqueue 3, Select_req 0] = Some s
      \<and> dispatched (trace s) = [[1, 2, 3]]
      \<and> in_flight (workers s) = []
      \<and> launched (trace s) = [(''boom'', [1, 2, 3])]
      \<and> ErrorHandler (option s)"
    by (simp add: eval_defs in_flight_def flying_def calling_def)
  then obtain s1 where e1: "execute (\<lambda>items :: nat list. Returns_err ''boom'') 1 (2 ^ 34)
          [\<lambda>opt. opt\<lparr>BatchSize := 3, ErrorHandler := True\<rparr>]
          [Call_Start, Work_begins 0 False, Call_Enqueue 1, Select_req 0, Call_Enqueue 2,
           Select_req 0, Call_Enqueue 3, Select_req 0] = Some s1"
    and f1: "dispatched (trace s1) = [[1, 2, 3]]" "in_flight (workers s1) = []"
      "launched (trace s1) = [(''boom'', [1, 2, 3])]" "ErrorHandler (option s1)"
    by (elim exE conjE) (rule that; assumption)
  note T1 = failed_dispatch_reported_once [OF e1]
  have a1: "mset (filter reported (trace s1))
          = {#GoErrorHandler ''boom'' [1, 2, 3] (\<lambda>items. Returns_err ''boom'')#}"
    using T1[THEN conjunct1] f1 by (simp add: due_def)
  have b1: "mset (handlers s1) \<subseteq># {#(''boom'', [1, 2, 3])#}"
    using T1[THEN conjunct2, THEN conjunct1] f1 by simp
  have c1: "mset (concat (dispatched (trace s1))) \<subseteq># {#1, 2, 3#}"
    using T1[THEN conjunct2, THEN conjunct2] by simp
  have "\<exists>s. execute (\<lambda>items :: nat list. Returns_err ''boom'') 1 (2 ^ 34)
          [\<lambda>opt. opt\<lparr>BatchSize := 3, ErrorHandler := True\<rparr>]
          [Call_Start, Work_begins 0 False, Call_Enqueue 1, Select_req 0, Call_Enqueue 2,
           Select_req 0, Call_Enqueue 3, Enters_req 0] = Some s
      \<and> dispatched (trace s) = [[1, 2, 3]]
      \<and> in_flight (workers s) = [[1, 2, 3]]
      \<and> ErrorHandler (option s)"
    by (simp add: eval_defs in_flight_def flying_def calling_def)
  then obtain s2 where e2: "execute (\<lambda>items :: nat list. Returns_err ''boom'') 1 (2 ^ 34)
          [\<lambda>opt. opt\<lparr>BatchSize := 3, ErrorHandler := True\<rparr>]
          [Call_Start, Work_begins 0 False, Call_Enqueue 1, Select_req 0, Call_Enqueue 2,
           Select_req 0, Call_Enqueue 3, Enters_req 0] = Some s2"
    and f2: "dispatched (trace s2) = [[1, 2, 3]]" "in_flight (workers s2) = [[1, 2, 3]]"
      "ErrorHandler (option s2)"
    by (elim exE conjE) (rule that; assumption)
  have a2: "mset (filter reported (trace s2))
          + {#GoErrorHandler ''boom'' [1, 2, 3] (\<lambda>items. Returns_err ''boom'')#}
          = {#GoErrorHandler ''boom'' [1, 2, 3] (\<lambda>items. Returns_err ''boom'')#}"
    using failed_dispatch_reported_once [OF e2, THEN conjunct1] f2 by (simp add: due_def)
  have "\<exists>s. execute (\<lambda>items :: nat list. Returns_err ''boom'') 1 (2 ^ 34)
          [\<lambda>opt. opt\<lparr>BatchSize := 3, Logger := True\<rparr>]
          [Call_Start, Work_begins 0 False, Call_Enqueue 1, Select_req 0, Call_Enqueue 2,
           Select_req 0, Call_Enqueue 3, Enters_req 0, Call_returns 0] = Some s
      \<and> dispatched (trace s) = [[1, 2, 3]]
      \<and> in_flight (workers s) = []
      \<and> launched (trace s) = []
      \<and> \<not> ErrorHandler (option s) \<and> Logger (option s)"
    by (simp add: eval_defs in_flight_def flying_def calling_def)
  then obtain s3 where e3: "execute (\<lambda>items :: nat list. Returns_err ''boom'') 1 (2 ^ 34)
          [\<lambda>opt. opt\<lparr>BatchSize := 3, Logger := True\<rparr>]
          [Call_Start, Work_begins 0 False, Call_Enqueue 1, Select_req 0, Call_Enqueue 2,
           Select_req 0, Call_Enqueue 3, Enters_req 0, Call_returns 0] = Some s3"
    and f3: "dispatched (trace s3) = [[1, 2, 3]]" "in_flight (workers s3) = []"
      "launched (trace s3) = []" "\<not> ErrorHandler (option s3)" "Logger (option s3)"
    by (elim exE conjE) (rule that; assumption)
  note T3 = failed_dispatch_reported_once [OF e3]
  have a3: "mset (filter reported (trace s3))
          = {#Errorc ''error happens in batchProcess and is skipped''#}"
    using T3[THEN conjunct1] f3 by (simp add: due_def)
  have b3: "mset (handlers s3) \<subseteq># {#}"
    using T3[THEN conjunct2, THEN conjunct1] f3 by simp
  show ?thesis
    by (intro conjI exI[of _ s1] exI[of _ s2] exI[of _ s3] e1 f1(1,2) a1 b1 c1 e2 f2(1,2) a2
        e3 f3(1,2) a3 b3)
qed

section \<open>TryEnqueue\<close>

text \<open>
  C4. \<^verbatim>\<open>TryEnqueue\<close> always returns, whatever the queue holds (where \<^verbatim>\<open>Enqueue\<close> on a full
  queue does not proceed). With room in the queue it places the item and returns true
  without yielding. On a full queue it yields once, and what it finds after the yield
  decides: with room it places the item and returns true; still full, it returns false,
  the queue is as the yield left it, and with a logger configured the warning is logged.
\<close>

theorem TryEnqueue_two_attempts:
  "(length (eventQueue s) < capacity s \<longrightarrow>
      TryEnqueue item yield s = (True, s\<lparr>eventQueue := eventQueue s @ [item]\<rparr>))
   \<and> (\<not> length (eventQueue s) < capacity s \<longrightarrow>
       Enqueue item s = None
       \<and> (let s2 = yield (emit ((if Logger (option s)
                   then [Warnc ''Event queue is full and try reschedule'' []] else []) @ [Gosched]) s)
          in (length (eventQueue s2) < capacity s2 \<longrightarrow>
                TryEnqueue item yield s = (True, s2\<lparr>eventQueue := eventQueue s2 @ [item]\<rparr>))
           \<and> (\<not> length (eventQueue s2) < capacity s2 \<longrightarrow>
                TryEnqueue item yield s =
                  (False, emit (if Logger (option s2)
                     then [Warnc ''Event queue is still full and %+v is skipped.'' [item]] else []) s2))))"
  by (simp add: TryEnqueue_def Enqueue_def chan_send_def emit_def Let_def)

theorem TryEnqueue_two_attempts_witness:
  "(let s = \<lparr>option = \<lparr>BatchSize = 8, Workers = 1, ChannelBufferSize = 1, LingerTime = 0,
                        ErrorHandler = False, Logger = True\<rparr>,
              wg = 0, quit = False, eventQueue = [], capacity = 1,
              batchProcessor = (\<lambda>items :: nat list. (Returns_nil :: unit result)),
              workers = [], handlers = [], pollers = [], waiters = [], blocked = [], woken = [],
              now = 0, memory = 0, trace = []\<rparr>;
        full = s\<lparr>eventQueue := [1]\<rparr>;
        received = (\<lambda>t. t\<lparr>eventQueue := tl (eventQueue t)\<rparr>)
    in TryEnqueue 5 id s = (True, s\<lparr>eventQueue := [5]\<rparr>)
     \<and> TryEnqueue 5 received full
          = (True, s\<lparr>eventQueue := [5],
                     trace := [Warnc ''Event queue is full and try reschedule'' [], Gosched]\<rparr>)
     \<and> TryEnqueue 5 id full
          = (False, s\<lparr>eventQueue := [1],
                      trace := [Warnc ''Event queue is full and try reschedule'' [], Gosched,
                                Warnc ''Event queue is still full and %+v is skipped.'' [5]]\<rparr>))"
  using TryEnqueue_two_attempts [of
          "\<lparr>option = \<lparr>BatchSize = 8, Workers = 1, ChannelBufferSize = 1, LingerTime = 0,
                        ErrorHandler = False, Logger = True\<rparr>,
              wg = 0, quit = False, eventQueue = [], capacity = 1,
              batchProcessor = (\<lambda>items :: nat list. (Returns_nil :: unit result)),
              workers = [], handlers = [], pollers = [], waiters = [], blocked = [], woken = [],
              now = 0, memory = 0, trace = []\<rparr>"
          5 id]
        TryEnqueue_two_attempts [of
          "\<lparr>option = \<lparr>BatchSize = 8, Workers = 1, ChannelBufferSize = 1, LingerTime = 0,
                        ErrorHandler = False, Logger = True\<rparr>,
              wg = 0, quit = False, eventQueue = [1], capacity = 1,
              batchProcessor = (\<lambda>items :: nat list. (Returns_nil :: unit result)),
              workers = [], handlers = [], pollers = [], waiters = [], blocked = [], woken = [],
              now = 0, memory = 0, trace = []\<rparr>"
          5 "\<lambda>t. t\<lparr>eventQueue := tl (eventQueue t)\<rparr>"]
        TryEnqueue_two_attempts [of
          "\<lparr>option = \<lparr>BatchSize = 8, Workers = 1, ChannelBufferSize = 1, LingerTime = 0,
                        ErrorHandler = False, Logger = True\<rparr>,
              wg = 0, quit = False, eventQueue = [1], capacity = 1,
              batchProcessor = (\<lambda>items :: nat list. (Returns_nil :: unit result)),
              workers = [], handlers = [], pollers = [], waiters = [], blocked = [], woken = [],
              now = 0, memory = 0, trace = []\<rparr>"
          5 id]
  by (simp add: Let_def emit_def)

section \<open>Every dispatched batch is within bounds\<close>

text \<open>
  C3. With \<open>BatchSize\<close> at least 1, in every state the program can reach from a fresh
  aggregator, under every schedule, each batch the batch handler was called with (on
  the size path, the linger path or the shutdown flush, before or after a recovered
  panic) has at least one item and at most \<open>BatchSize\<close> items.
\<close>

theorem dispatched_batch_within_bounds:
  assumes "execute bp numCPU mem optionFuncs acts = Some s"
    and "1 \<le> BatchSize (option s)"
    and "Call items \<in> set (trace s)"
  shows "1 \<le> length items \<and> int (length items) \<le> BatchSize (option s)"
proof -
  from assms(1) obtain s0 where s0: "NewAggregator bp numCPU mem optionFuncs = Inr s0"
    and r: "run s0 acts = Some s"
    by (auto simp: execute_def split: sum.splits)
  have b0: "batches_bounded (option s0) s0" by (rule NewAggregator_bounded[OF s0])
  have o: "option s = option s0"
    using run_preserves[where P = "\<lambda>t. option t = option s0", OF _ _ r] step_option by metis
  have "batches_bounded (option s0) s"
    using run_preserves[where P = "batches_bounded (option s0)", OF _ b0 r]
      step_bounded assms(2) o by metis
  moreover have "items \<in> set (dispatched (trace s))"
    using assms(3) by (force simp: dispatched_def)
  ultimately show ?thesis using o by (auto simp: batches_bounded_def)
qed

theorem dispatched_batch_within_bounds_witness:
  "\<exists>s. execute (\<lambda>items :: nat list. (Returns_nil :: unit result)) 1 (2 ^ 34)
          [\<lambda>opt. opt\<lparr>BatchSize := 2\<rparr>]
          [Call_Start, Work_begins 0 False, Call_Enqueue 1, Select_req 0, Call_Enqueue 2,
           Select_req 0, Call_Enqueue 3, Select_req 0, Time_passes 60000000000, Timer_expires 0,
           Select_linger 0, Call_Enqueue 4, Select_req 0, Call_Stop, Select_quit 0,
           Wait_returns 0] = Some s
      \<and> BatchSize (option s) = 2
      \<and> dispatched (trace s) = [[1, 2], [3], [4]]
      \<and> int (length [1, 2 :: nat]) \<le> BatchSize (option s)
      \<and> 1 \<le> length [3 :: nat]
      \<and> 1 \<le> length [4 :: nat]"
proof -
  have "\<exists>s. execute (\<lambda>items :: nat list. (Returns_nil :: unit result)) 1 (2 ^ 34)
          [\<lambda>opt. opt\<lparr>BatchSize := 2\<rparr>]
          [Call_Start, Work_begins 0 False, Call_Enqueue 1, Select_req 0, Call_Enqueue 2,
           Select_req 0, Call_Enqueue 3, Select_req 0, Time_passes 60000000000, Timer_expires 0,
           Select_linger 0, Call_Enqueue 4, Select_req 0, Call_Stop, Select_quit 0,
           Wait_returns 0] = Some s
      \<and> BatchSize (option s) = 2
      \<and> trace s = [WgAdd, TimerReset 60000000000, WgAdd, Call [1, 2], WgDone,
                    TimerReset 60000000000, WgAdd, Call [3], WgDone,
                    TimerReset 60000000000, WgAdd, Call [4], WgDone, WgDone, Returns In_Stop]"
    by (simp add: eval_defs)
  then obtain s where e: "execute (\<lambda>items :: nat list. (Returns_nil :: unit result)) 1 (2 ^ 34)
          [\<lambda>opt. opt\<lparr>BatchSize := 2\<rparr>]
          [Call_Start, Work_begins 0 False, Call_Enqueue 1, Select_req 0, Call_Enqueue 2,
           Select_req 0, Call_Enqueue 3, Select_req 0, Time_passes 60000000000, Timer_expires 0,
           Select_linger 0, Call_Enqueue 4, Select_req 0, Call_Stop, Select_quit 0,
           Wait_returns 0] = Some s"
    and b: "BatchSize (option s) = 2"
    and t: "trace s = [WgAdd, TimerReset 60000000000, WgAdd, Call [1, 2], WgDone,
                    TimerReset 60000000000, WgAdd, Call [3], WgDone,
                    TimerReset 60000000000, WgAdd, Call [4], WgDone, WgDone, Returns In_Stop]"
    by (elim exE conjE) (rule that; assumption)
  have one: "1 \<le> BatchSize (option s)" using b by simp
  have "int (length [1, 2 :: nat]) \<le> BatchSize (option s)"
    using dispatched_batch_within_bounds [OF e one, of "[1, 2]"] t by simp
  moreover have "1 \<le> length [3 :: nat]"
    using dispatched_batch_within_bounds [OF e one, of "[3]"] t by simp
  moreover have "1 \<le> length [4 :: nat]"
    using dispatched_batch_within_bounds [OF e one, of "[4]"] t by simp
  ultimately show ?thesis using e b t by (intro exI[of _ s]) simp
qed

section \<open>What the completion counter counts\<close>




section \<open>The size path and the linger timer\<close>

lemma step_blocked:
  assumes inv: "i < length (workers s) \<and> blocked_forever (workers s ! i)"
    and st: "step s a = Some s'"
  shows "i < length (workers s') \<and> blocked_forever (workers s' ! i)"
  using st
proof (cases rule: step_cases)
  case (begins j fired)
  with inv show ?thesis by (cases "j = i") (auto simp: blocked_forever_def)
next
  case (selects j c q)
  with inv show ?thesis by (cases "j = i") (auto simp: blocked_forever_def)
next
  case (enters j c q)
  with inv show ?thesis by (cases "j = i") (auto simp: blocked_forever_def)
next
  case (returns j p)
  with inv show ?thesis by (cases "j = i") (auto simp: blocked_forever_def)
next
  case (drained j w)
  with inv show ?thesis
    by (cases "j = i")
      (auto simp: blocked_forever_def work_drain_def timer_recv_def split: if_splits)
next
  case (expires j)
  with inv show ?thesis by (cases "j = i") (auto simp: blocked_forever_def)
next
  case start
  with inv show ?thesis by (simp add: Start_def nth_append)
qed (use inv in \<open>simp_all add: emit_def\<close>)

text \<open>
  C2 (the code at the failing input). \<open>BatchSize\<close> 1, one worker, a batch handler that
  does not panic on [x]: the worker receives x, the size check \<^verbatim>\<open>1 < 1\<close> fails so the timer
  is never armed, [x] is dispatched, \<^verbatim>\<open>lingerTimer.Stop()\<close> returns false on the disarmed
  timer and the worker blocks in \<^verbatim>\<open><-lingerTimer.C\<close>. Whatever happens afterwards, under
  every continuation of the schedule, the worker is still there: its select is never
  reached again, the blocked receive never completes, and no call of Stop or SafeStop
  returns, at once or after having slept, since the worker never runs its \<^verbatim>\<open>wg.Done()\<close>.
\<close>

theorem batch_size_one_blocks_worker:
  assumes e: "execute bp 1 mem [\<lambda>opt. opt\<lparr>BatchSize := 1\<rparr>]
             ([Call_Start, Work_begins 0 fired, Call_Enqueue x, Select_req 0] @ acts) = Some s"
    and np: "bp [x] \<noteq> Panics"
  shows "Call [x] \<in> set (trace s)
       \<and> pc (workers s ! 0) = Draining
       \<and> step s (Drained 0) = None
       \<and> step s (Select_req 0) = None
       \<and> step s (Select_linger 0) = None
       \<and> step s (Select_quit 0) = None
       \<and> (\<forall>k. step s (Wait_returns k) = None)
       \<and> (\<forall>k. step s (Wait_resumes k) = None)"
proof -
  from e[unfolded execute_append]
  obtain t where t: "execute bp 1 mem [\<lambda>opt. opt\<lparr>BatchSize := 1\<rparr>]
             [Call_Start, Work_begins 0 fired, Call_Enqueue x, Select_req 0] = Some t"
    and r: "run t acts = Some s"
    by (auto split: option.splits)
  have "0 < length (workers t) \<and> blocked_forever (workers t ! 0) \<and> Call [x] \<in> set (trace t)
          \<and> woken t = []"
    using t np
    by (cases "bp [x]"; cases fired) (auto simp: eval_defs blocked_forever_def split: if_splits)
  then have b: "0 < length (workers t) \<and> blocked_forever (workers t ! 0)"
    and c: "Call [x] \<in> set (trace t)" and w: "woken t = []"
    by simp_all
  let ?P = "\<lambda>u. (0 < length (workers u) \<and> blocked_forever (workers u ! 0))
                \<and> wg u = counted (workers u) \<and> woken u = []"
  have keep: "?P u'" if "?P u" and "step u a = Some u'" for u a u'
  proof -
    from that have 1: "0 < length (workers u') \<and> blocked_forever (workers u' ! 0)"
      using step_blocked by blast
    from that have 2: "wg u' = counted (workers u')" using step_counted by blast
    from 1 have "weight (workers u' ! 0) = 1" by (simp add: blocked_forever_def weight_simps)
    with weight_le_counted[of 0 "workers u'"] 1 2 have "wg u' \<noteq> 0" by simp
    with step_woken[OF _ that(2)] that(1) have "woken u' = []" by blast
    with 1 2 show ?thesis by simp
  qed
  have "?P t" using b w execute_counter[OF t] by simp
  from run_preserves[of ?P, OF keep this r]
  have bs: "0 < length (workers s) \<and> blocked_forever (workers s ! 0)"
    and cs: "wg s = counted (workers s)" and ws: "woken s = []"
    by simp_all
  have tr: "Call [x] \<in> set (trace s)"
    using run_trace_grows[OF r] c by auto
  from bs have "weight (workers s ! 0) = 1" by (simp add: blocked_forever_def weight_simps)
  with weight_le_counted[of 0 "workers s"] bs cs have "wg s \<noteq> 0" by simp
  then have "\<forall>k. step s (Wait_returns k) = None" by (simp add: wg_Wait_def)
  moreover have "\<forall>k. step s (Wait_resumes k) = None" using ws by (simp add: wg_Wait_resumes_def)
  moreover have "step s (Drained 0) = None"
    using bs by (simp add: blocked_forever_def work_drain_def timer_recv_def at_pc_def)
  ultimately show ?thesis using bs tr by (simp add: blocked_forever_def at_pc_def)
qed

theorem batch_size_one_blocks_worker_witness:
  "\<exists>s. execute (\<lambda>items :: nat list. (Returns_nil :: unit result)) 1 (2 ^ 34)
          [\<lambda>opt. opt\<lparr>BatchSize := 1\<rparr>]
          ([Call_Start, Work_begins 0 False, Call_Enqueue 7, Select_req 0]
           @ [Call_Enqueue 8, Call_Stop, Wait_blocks 0, Time_passes 60000000000]) = Some s
      \<and> dispatched (trace s) = [[7]]
      \<and> eventQueue s = [8]
      \<and> quit s
      \<and> blocked s = [In_Stop]
      \<and> pc (workers s ! 0) = Draining
      \<and> step s (Drained 0) = None
      \<and> step s (Select_req 0) = None
      \<and> step s (Select_quit 0) = None
      \<and> step s (Wait_returns 0) = None
      \<and> step s (Wait_resumes 0) = None"
proof -
  have "\<exists>s. execute (\<lambda>items :: nat list. (Returns_nil :: unit result)) 1 (2 ^ 34)
          [\<lambda>opt. opt\<lparr>BatchSize := 1\<rparr>]
          ([Call_Start, Work_begins 0 False, Call_Enqueue 7, Select_req 0]
           @ [Call_Enqueue 8, Call_Stop, Wait_blocks 0, Time_passes 60000000000]) = Some s
      \<and> dispatched (trace s) = [[7]]
      \<and> eventQueue s = [8]
      \<and> quit s
      \<and> blocked s = [In_Stop]"
    by (simp add: eval_defs)
  then obtain s where e: "execute (\<lambda>items :: nat list. (Returns_nil :: unit result)) 1 (2 ^ 34)
          [\<lambda>opt. opt\<lparr>BatchSize := 1\<rparr>]
          ([Call_Start, Work_begins 0 False, Call_Enqueue 7, Select_req 0]
           @ [Call_Enqueue 8, Call_Stop, Wait_blocks 0, Time_passes 60000000000]) = Some s"
    and f: "dispatched (trace s) = [[7]]" "eventQueue s = [8]" "quit s" "blocked s = [In_Stop]"
    by (elim exE conjE) (rule that; assumption)
  have "(Returns_nil :: unit result) \<noteq> Panics" by simp
  from batch_size_one_blocks_worker [OF e this]
  have g: "pc (workers s ! 0) = Draining" "step s (Drained 0) = None"
    "step s (Select_req 0) = None" "step s (Select_quit 0) = None"
    "step s (Wait_returns 0) = None" "step s (Wait_resumes 0) = None"
    by simp_all
  show ?thesis by (intro exI[of _ s] conjI e f g)
qed

text \<open>
  With \<open>BatchSize\<close> at least 2 the first item of a batch always arms the timer, so when the
  batch is full the timer is armed or has a value waiting, also when it expires while
  the dispatch is in flight, and the disarm-and-drain step completes: no worker is ever
  blocked there.
\<close>

lemma work_begin_consistent: "timer_consistent (fst (work_begin opt tm fired))"
  by (simp add: work_begin_def timer_consistent_def stop_and_drain_def timer_Stop_def
      timer_recv_def timer_expire_def NewTimer_def Let_def spawned_def)

lemma work_select_consistent:
  assumes "timer_consistent w" and "pc w = Selecting" and "2 \<le> BatchSize opt"
    and "c = Case_linger \<longrightarrow> timerC (lingerTimer w)"
  shows "timer_consistent (fst (work_select opt bp tm c w))"
proof (cases c)
  case (Case_req req)
  show ?thesis
  proof (cases "int (length (batch w @ [req])) < BatchSize opt")
    case True
    with assms Case_req show ?thesis
      by (auto simp: work_select_def Let_def timer_consistent_def timer_Reset_def)
  next
    case False
    with assms(3) have "batch w \<noteq> []" by auto
    with assms(1,2) have "active (lingerTimer w) \<noteq> timerC (lingerTimer w)"
      by (simp add: timer_consistent_def)
    then obtain t where t: "stop_and_drain (lingerTimer w) = Some t" "\<not> active t" "\<not> timerC t"
      by (auto simp: stop_and_drain_def timer_Stop_def timer_recv_def)
    with False Case_req assms(2) show ?thesis
      by (auto simp: work_select_def Let_def recovered_def timer_consistent_def split: prod.splits)
  qed
next
  case Case_linger
  with assms show ?thesis
    by (auto simp: work_select_def Let_def recovered_def timer_consistent_def split: prod.splits)
next
  case Case_quit
  with assms show ?thesis
    by (auto simp: work_select_def Let_def recovered_def timer_consistent_def split: prod.splits)
qed

lemma work_call_consistent:
  assumes "timer_consistent w" and "pc w = Selecting" and "2 \<le> BatchSize opt"
    and "dispatches opt c w" and "c = Case_linger \<longrightarrow> timerC (lingerTimer w)"
  shows "timer_consistent (fst (work_call c w))"
proof (cases c)
  case (Case_req req)
  with assms(3,4) have "batch w \<noteq> []" by (auto simp: dispatches_def)
  with assms(1,2) Case_req show ?thesis by (simp add: work_call_def timer_consistent_def)
next
  case Case_linger
  with assms show ?thesis
    by (auto simp: work_call_def timer_consistent_def dispatches_def split: if_splits)
next
  case Case_quit
  then show ?thesis by (simp add: work_call_def timer_consistent_def)
qed

lemma work_return_consistent:
  assumes "timer_consistent w" and "pc w = Calling p"
  shows "timer_consistent (fst (work_return opt bp p w))"
proof (cases p)
  case Size_path
  with assms have "active (lingerTimer w) \<noteq> timerC (lingerTimer w)"
    by (simp add: timer_consistent_def)
  then obtain t where t: "stop_and_drain (lingerTimer w) = Some t" "\<not> active t" "\<not> timerC t"
    by (auto simp: stop_and_drain_def timer_Stop_def timer_recv_def)
  with Size_path show ?thesis
    by (simp add: work_return_def Let_def recovered_def timer_consistent_def case_prod_beta)
next
  case Linger_path
  with assms show ?thesis
    by (simp add: work_return_def Let_def recovered_def timer_consistent_def case_prod_beta)
next
  case Quit_path
  then show ?thesis
    by (simp add: work_return_def Let_def recovered_def timer_consistent_def case_prod_beta)
qed

lemma step_consistent:
  fixes s :: "('a, 'e) state"
  assumes inv: "\<forall>w \<in> set (workers s). timer_consistent w"
    and b: "2 \<le> BatchSize (option s)" and st: "step s a = Some s'"
  shows "\<forall>w \<in> set (workers s'). timer_consistent w"
proof -
  have upd: "\<forall>w \<in> set ((workers s)[i := w']). timer_consistent w" if "timer_consistent w'" for i w'
    using inv that by (auto dest!: in_set_updateD)
  from st show ?thesis
  proof (cases rule: step_cases)
    case (begins i fired)
    have "timer_consistent (fst (work_begin (option s) (now s) fired
                                   :: 'a worker \<times> ('a, 'e) effect list))"
      by (rule work_begin_consistent)
    from upd[OF this] show ?thesis by (simp add: begins(4))
  next
    case (selects i c q)
    have "c = Case_linger \<longrightarrow> timerC (lingerTimer (workers s ! i))"
      using selects(4) by (cases c) simp_all
    then have "timer_consistent (fst (work_select (option s) (batchProcessor s) (now s) c
                                        (workers s ! i)))"
      using inv selects(1,2) b by (intro work_select_consistent) simp_all
    from upd[OF this] show ?thesis by (simp add: selects(3))
  next
    case (enters i c q)
    have "c = Case_linger \<longrightarrow> timerC (lingerTimer (workers s ! i))"
      using enters(5) by (cases c) simp_all
    then have "timer_consistent (fst (work_call c (workers s ! i)
                                   :: 'a worker \<times> ('a, 'e) effect list))"
      using inv enters(1,2,3) b by (intro work_call_consistent) simp_all
    from upd[OF this] show ?thesis by (simp add: enters(4))
  next
    case (returns i p)
    have "timer_consistent (fst (work_return (option s) (batchProcessor s) p (workers s ! i)))"
      using inv returns(2,3) by (intro work_return_consistent) simp_all
    from upd[OF this] show ?thesis by (simp add: returns(4))
  next
    case (drained i w)
    with inv show ?thesis by (auto simp: timer_consistent_def)
  next
    case (expires i)
    have "timer_consistent (workers s ! i)" using inv expires(2) by simp
    with expires(3) have "timer_consistent ((workers s ! i)
                     \<lparr>lingerTimer := timer_expire (lingerTimer (workers s ! i))\<rparr>)"
      by (auto simp: timer_consistent_def timer_expire_def split: if_splits)
    from upd[OF this] show ?thesis by (simp add: expires(4))
  next
    case start
    with inv show ?thesis by (auto simp: Start_def spawned_def timer_consistent_def)
  qed (use inv in \<open>simp_all add: emit_def\<close>)
qed

lemma drain_completes_from_batch_size_two:
  assumes e: "execute bp numCPU mem optionFuncs acts = Some s" and b: "2 \<le> BatchSize (option s)"
  shows "\<forall>w \<in> set (workers s). pc w \<noteq> Draining"
proof -
  from e obtain s0 where s0: "NewAggregator bp numCPU mem optionFuncs = Inr s0"
    and r: "run s0 acts = Some s"
    by (auto simp: execute_def split: sum.splits)
  have o: "option s = option s0"
    using run_preserves[where P = "\<lambda>t. option t = option s0", OF _ _ r] step_option by metis
  have "(\<forall>w \<in> set (workers s). timer_consistent w) \<and> option s = option s0"
    using run_preserves[where P = "\<lambda>t. (\<forall>w \<in> set (workers t). timer_consistent w)
                                        \<and> option t = option s0", OF _ _ r]
      step_consistent step_option b o NewAggregator_initial(2)[OF s0]
    by (metis empty_iff list.set(1))
  then show ?thesis by (simp add: timer_consistent_def)
qed

section \<open>SafeStop\<close>

text \<open>
  What does hold of SafeStop: it closes quit only from a state where the queue is empty,
  at the immediate check or at a tick that is due; while the queue is not empty it
  leaves quit alone and the next tick is due 50 milliseconds after the previous one;
  and \<^verbatim>\<open>wg.Wait()\<close> returns, at once or after having slept, only when the counter is zero.
\<close>

lemma SafeStop_closes_on_empty_queue:
  "(quit (SafeStop s) \<and> \<not> quit s \<longrightarrow> eventQueue s = [])
   \<and> (eventQueue s \<noteq> [] \<longrightarrow>
        quit (SafeStop s) = quit s
        \<and> pollers (SafeStop s) = pollers s @ [now s + 50 * Millisecond])
   \<and> (SafeStop_tick k s = Some s' \<longrightarrow>
        pollers s ! k \<le> now s
        \<and> (quit s' \<and> \<not> quit s \<longrightarrow> eventQueue s = [])
        \<and> (eventQueue s \<noteq> [] \<longrightarrow>
             quit s' = quit s \<and> pollers s' = (pollers s)[k := pollers s ! k + 50 * Millisecond]))
   \<and> (wg_Wait k s = Some s' \<longrightarrow> wg s = 0)
   \<and> (wg_Wait_resumes k s = Some s' \<and> trace s' = trace s @ [Returns c] \<longrightarrow> wg s = 0)"
  by (auto simp: SafeStop_def SafeStop_tick_def close_quit_def emit_def wg_Wait_def
      wg_Wait_resumes_def split: if_splits)

text \<open>
  C5 (the code at the failing input). Start, then SafeStop at once, before either worker
  goroutine has been scheduled: the queue is empty, quit is closed, the counter is still
  zero because \<^verbatim>\<open>agt.wg.Add(1)\<close> is the first statement of \<^verbatim>\<open>work\<close> and has not run yet, and
  \<^verbatim>\<open>wg.Wait()\<close> returns. SafeStop has returned and no worker has exited: both are yet to
  begin. One of them then begins, receives an item enqueued after SafeStop returned,
  and holds it in its batch.
\<close>

theorem SafeStop_returns_before_workers_register:
  "map_option (\<lambda>s. (trace s, map pc (workers s), quit s, wg s))
     (execute (\<lambda>items :: nat list. (Returns_nil :: unit result)) 2 (2 ^ 34) []
        [Call_Start, Call_SafeStop, Wait_returns 0])
   = Some ([Returns In_SafeStop], [Spawned, Spawned], True, 0)
   \<and> map_option (\<lambda>s. (trace s, map pc (workers s), map batch (workers s), eventQueue s))
     (execute (\<lambda>items :: nat list. (Returns_nil :: unit result)) 2 (2 ^ 34) []
        [Call_Start, Call_SafeStop, Wait_returns 0, Work_begins 0 False, Call_Enqueue 5,
         Select_req 0])
   = Some ([Returns In_SafeStop, WgAdd, TimerReset 60000000000], [Selecting, Spawned],
           [[5], []], [])"
  by (simp add: eval_defs numeral_2_eq_2)

section \<open>The shutdown signal\<close>

lemma step_returned:
  assumes inv: "i < length (workers s) \<and> pc (workers s ! i) = Returned"
    and st: "step s a = Some s'"
  shows "i < length (workers s') \<and> pc (workers s' ! i) = Returned
       \<and> batch (workers s' ! i) = batch (workers s ! i)
       \<and> a \<notin> {Select_req i, Select_linger i, Select_quit i, Enters_req i, Enters_linger i,
               Enters_quit i, Call_returns i, Work_begins i True, Work_begins i False, Drained i}"
  using st
proof (cases rule: step_cases)
  case (begins j fired)
  with inv show ?thesis by (cases "j = i") auto
next
  case (selects j c q)
  with inv show ?thesis by (cases "j = i"; cases c) auto
next
  case (enters j c q)
  with inv show ?thesis by (cases "j = i"; cases c) auto
next
  case (returns j p)
  with inv show ?thesis by (cases "j = i") auto
next
  case (drained j w)
  with inv show ?thesis by (cases "j = i") auto
next
  case (expires j)
  with inv show ?thesis by (cases "j = i") auto
next
  case start
  with inv show ?thesis by (simp add: Start_def nth_append)
next
  case (closes c ps)
  with inv show ?thesis by auto
next
  case (polls ps)
  with inv show ?thesis by auto
qed (use inv in \<open>simp_all add: emit_def\<close>)

lemma run_returned:
  assumes "i < length (workers s) \<and> pc (workers s ! i) = Returned"
    and "run s acts = Some s'"
  shows "i < length (workers s') \<and> pc (workers s' ! i) = Returned
       \<and> batch (workers s' ! i) = batch (workers s ! i)
       \<and> set acts \<inter> {Select_req i, Select_linger i, Select_quit i, Enters_req i, Enters_linger i,
               Enters_quit i, Call_returns i, Work_begins i True, Work_begins i False, Drained i}
           = {}"
  using assms
proof (induction acts arbitrary: s)
  case Nil
  then show ?case by simp
next
  case (Cons a acts)
  from Cons.prems(2) obtain t where t: "step s a = Some t" and r: "run t acts = Some s'"
    by (auto split: option.splits)
  from step_returned[OF Cons.prems(1) t] Cons.IH[OF _ r] show ?case by auto
qed

text \<open>
  The same flush with the dispatch left in flight: the batch handler is called once with
  the non-empty batch, and when the call ends without a panic the worker has returned.
\<close>

lemma quit_flush_in_flight:
  "step s (Enters_quit i) = Some s1 \<Longrightarrow>
     batch (workers s ! i) \<noteq> []
     \<and> dispatched (trace s1) = dispatched (trace s) @ [batch (workers s ! i)]
     \<and> pc (workers s1 ! i) = Calling Quit_path
     \<and> batch (workers s1 ! i) = batch (workers s ! i)"
  "step s (Call_returns i) = Some s' \<Longrightarrow> pc (workers s ! i) = Calling Quit_path \<Longrightarrow>
     dispatched (trace s') = dispatched (trace s)
     \<and> pc (workers s' ! i)
         = (if batchProcessor s (batch (workers s ! i)) = Panics then Spawned else Returned)"
  by (auto simp: at_pc_def work_call_def dispatches_def work_return_def recovered_def
      case_prod_beta batchProcess_returns_simps split: if_splits)




section \<open>Arming the linger timer\<close>

lemma receive_more:
  assumes "batch w \<noteq> []" and "int (length (batch w) + length reqs) < BatchSize opt"
  shows "batch (receive_all opt bp w reqs) = batch w @ map snd reqs
       \<and> lingerTimer (receive_all opt bp w reqs) = lingerTimer w
       \<and> pc (receive_all opt bp w reqs) = pc w"
  using assms
proof (induction reqs arbitrary: w)
  case Nil
  then show ?case by simp
next
  case (Cons a reqs)
  obtain tm req where a: "a = (tm, req)" by (cases a)
  define w' where "w' = fst (work_select opt bp tm (Case_req req) w)"
  have w': "batch w' = batch w @ [req]" "lingerTimer w' = lingerTimer w" "pc w' = pc w"
    using Cons.prems by (auto simp: w'_def work_select_def Let_def)
  have "batch (receive_all opt bp w' reqs) = batch w' @ map snd reqs
       \<and> lingerTimer (receive_all opt bp w' reqs) = lingerTimer w'
       \<and> pc (receive_all opt bp w' reqs) = pc w'"
    using Cons.prems w' by (intro Cons.IH) auto
  then show ?case using w' by (simp add: a w'_def)
qed

text \<open>
  C8 (as the claim states it, refuted). \<open>BatchSize\<close> 1: the worker receives item 7 into an
  empty batch, the batch size becomes 1, and \<^verbatim>\<open>lingerTimer.Reset\<close> is not called: the
  call sits inside the branch \<^verbatim>\<open>batchSize < agt.option.BatchSize\<close>. The batch is dispatched
  with the timer never armed (which is why the drain that follows blocks).
\<close>

theorem timer_not_armed_at_size_one_when_batch_size_is_one:
  "(let opt = \<lparr>BatchSize = 1, Workers = 1, ChannelBufferSize = 1, LingerTime = 5,
                ErrorHandler = False, Logger = False\<rparr>;
        w = \<lparr>pc = Selecting, batch = [],
             lingerTimer = \<lparr>active = False, deadline = 0, timerC = False\<rparr>\<rparr>;
        r = work_select opt (\<lambda>items :: nat list. (Returns_nil :: unit result)) 100 (Case_req 7) w
    in (snd r, active (lingerTimer (fst r)), pc (fst r)))
   = ([WgAdd, Call [7], WgDone], False, Draining)"
  by (simp add: eval_defs)

text \<open>
  C8 (amended). Receiving an item appends it to the worker's batch. The linger timer is
  armed, for \<open>LingerTime\<close> from the time of the receive, exactly when the batch size
  becomes 1 and 1 is below \<open>BatchSize\<close>; a later item that leaves the batch below
  \<open>BatchSize\<close> leaves the timer as it is, and an item that fills the batch has it
  dispatched. So for a batch that stays below \<open>BatchSize\<close> the deadline is the arrival
  time of its first item plus \<open>LingerTime\<close>, whenever the later items arrive.
\<close>

theorem timer_armed_by_first_item_below_batch_size:
  "(TimerReset (LingerTime opt) \<in> set (snd (work_select opt bp tm (Case_req req) w))
      \<longleftrightarrow> length (batch w @ [req]) = 1 \<and> 1 < BatchSize opt)
   \<and> (int (length (batch w @ [req])) < BatchSize opt \<longrightarrow>
        batch (fst (work_select opt bp tm (Case_req req) w)) = batch w @ [req]
        \<and> lingerTimer (fst (work_select opt bp tm (Case_req req) w)) =
            (if length (batch w @ [req]) = 1
             then (lingerTimer w)\<lparr>active := True, deadline := tm + LingerTime opt\<rparr>
             else lingerTimer w))
   \<and> (\<not> int (length (batch w @ [req])) < BatchSize opt \<longrightarrow>
        dispatched (snd (work_select opt bp tm (Case_req req) w)) = [batch w @ [req]])
   \<and> (batch w = [] \<and> reqs \<noteq> [] \<and> int (length reqs) < BatchSize opt \<longrightarrow>
        batch (receive_all opt bp w reqs) = map snd reqs
        \<and> active (lingerTimer (receive_all opt bp w reqs))
        \<and> deadline (lingerTimer (receive_all opt bp w reqs)) = fst (hd reqs) + LingerTime opt)"
proof -
  have 1: "TimerReset (LingerTime opt) \<in> set (snd (work_select opt bp tm (Case_req req) w))
      \<longleftrightarrow> length (batch w @ [req]) = 1 \<and> 1 < BatchSize opt"
    by (auto simp: work_select_def Let_def recovered_def batchProcess_def
        split: prod.splits option.splits result.splits)
  have 2: "batch (fst (work_select opt bp tm (Case_req req) w)) = batch w @ [req]
        \<and> lingerTimer (fst (work_select opt bp tm (Case_req req) w)) =
            (if length (batch w @ [req]) = 1
             then (lingerTimer w)\<lparr>active := True, deadline := tm + LingerTime opt\<rparr>
             else lingerTimer w)"
    if "int (length (batch w @ [req])) < BatchSize opt"
    using that by (auto simp: work_select_def Let_def timer_Reset_def)
  have 3: "dispatched (snd (work_select opt bp tm (Case_req req) w)) = [batch w @ [req]]"
    if "\<not> int (length (batch w @ [req])) < BatchSize opt"
    using that
    by (auto simp: work_select_def Let_def recovered_def
        split: prod.splits option.splits dest: batchProcess_effects(1))
  have 4: "batch (receive_all opt bp w reqs) = map snd reqs
        \<and> active (lingerTimer (receive_all opt bp w reqs))
        \<and> deadline (lingerTimer (receive_all opt bp w reqs)) = fst (hd reqs) + LingerTime opt"
    if e: "batch w = []" and n: "reqs \<noteq> []" and l: "int (length reqs) < BatchSize opt"
  proof -
    from n obtain tm1 req1 rest where reqs: "reqs = (tm1, req1) # rest" by (cases reqs) auto
    define w1 where "w1 = fst (work_select opt bp tm1 (Case_req req1) w)"
    have w1: "batch w1 = [req1]"
      "lingerTimer w1 = (lingerTimer w)\<lparr>active := True, deadline := tm1 + LingerTime opt\<rparr>"
      using e l by (auto simp: w1_def reqs work_select_def Let_def timer_Reset_def)
    from receive_more[of w1 rest opt bp] w1 l
    have "batch (receive_all opt bp w1 rest) = batch w1 @ map snd rest
       \<and> lingerTimer (receive_all opt bp w1 rest) = lingerTimer w1"
      by (simp add: reqs)
    then show ?thesis using w1 by (simp add: reqs w1_def)
  qed
  show ?thesis using 1 2 3 4 by blast
qed

theorem timer_armed_by_first_item_below_batch_size_witness:
  "(let opt = \<lparr>BatchSize = 3, Workers = 1, ChannelBufferSize = 1, LingerTime = 100,
                ErrorHandler = False, Logger = False\<rparr>;
        bp = (\<lambda>items :: nat list. (Returns_nil :: unit result));
        w = \<lparr>pc = Selecting, batch = [],
             lingerTimer = \<lparr>active = False, deadline = 0, timerC = False\<rparr>\<rparr>
    in TimerReset 100 \<in> set (snd (work_select opt bp 10 (Case_req 1) w))
     \<and> batch (fst (work_select opt bp 10 (Case_req 1) w)) = [1]
     \<and> batch (receive_all opt bp w [(10, 1), (50, 2)]) = [1, 2]
     \<and> active (lingerTimer (receive_all opt bp w [(10, 1), (50, 2)]))
     \<and> deadline (lingerTimer (receive_all opt bp w [(10, 1), (50, 2)])) = 110)"
  using timer_armed_by_first_item_below_batch_size [of
          "\<lparr>BatchSize = 3, Workers = 1, ChannelBufferSize = 1, LingerTime = 100,
            ErrorHandler = False, Logger = False\<rparr>"
          "\<lambda>items :: nat list. (Returns_nil :: unit result)" 10 1
          "\<lparr>pc = Selecting, batch = [],
            lingerTimer = \<lparr>active = False, deadline = 0, timerC = False\<rparr>\<rparr>"
          "[(10, 1), (50, 2)]"]
  by (simp add: Let_def)

section \<open>Calling Stop or SafeStop again\<close>

lemma poll_rounds:
  assumes "eventQueue s \<noteq> []" and "pollers s = [d]" and "d \<le> now s + 50000000"
  shows "\<exists>s'. run s (concat (replicate n [Time_passes 50000000, Ticker 0])) = Some s'
            \<and> trace s' = trace s \<and> eventQueue s' = eventQueue s \<and> waiters s' = waiters s
            \<and> length (pollers s') = 1"
  using assms
proof (induction n arbitrary: s d)
  case 0
  then show ?case by simp
next
  case (Suc n)
  define s1 where "s1 = s\<lparr>now := now s + 50000000, pollers := [d + 50 * Millisecond]\<rparr>"
  have r: "run s (Time_passes 50000000 # Ticker 0 # rest) = run s1 rest" for rest
    using Suc.prems by (simp add: SafeStop_tick_def s1_def)
  have "\<exists>s'. run s1 (concat (replicate n [Time_passes 50000000, Ticker 0])) = Some s'
            \<and> trace s' = trace s1 \<and> eventQueue s' = eventQueue s1 \<and> waiters s' = waiters s1
            \<and> length (pollers s') = 1"
    using Suc.prems by (intro Suc.IH[of s1 "d + 50 * Millisecond"]) (simp_all add: s1_def Millisecond_def)
  then obtain s' where s': "run s1 (concat (replicate n [Time_passes 50000000, Ticker 0])) = Some s'"
    "trace s' = trace s1" "eventQueue s' = eventQueue s1" "waiters s' = waiters s1"
    "length (pollers s') = 1"
    by auto
  have e: "concat (replicate (Suc n) [Time_passes 50000000, Ticker 0])
      = Time_passes 50000000 # Ticker 0 # concat (replicate n [Time_passes 50000000, Ticker 0])"
    by simp
  have "run s (concat (replicate (Suc n) [Time_passes 50000000, Ticker 0])) = Some s'"
    unfolding e r by (rule s'(1))
  then show ?case using s' by (auto simp: s1_def)
qed

text \<open>
  C10 (as the claim states it, refuted). Item 9 is enqueued, Stop closes quit, the worker
  takes the quit case with an empty batch and returns, Stop returns with item 9 still
  queued. SafeStop is then called: the queue is not empty, so it starts its ticker and
  polls. No worker is left to receive item 9, and after any number of ticks SafeStop is
  still polling: the trace holds no panic and no return of SafeStop.
\<close>

theorem SafeStop_after_Stop_polls_forever:
  "\<forall>n. map_option (\<lambda>s. (trace s, length (pollers s), waiters s, eventQueue s))
     (execute (\<lambda>items :: nat list. (Returns_nil :: unit result)) 1 (2 ^ 34) []
        ([Call_Start, Work_begins 0 False, Call_Enqueue 9, Call_Stop, Select_quit 0,
          Wait_returns 0, Call_SafeStop]
         @ concat (replicate n [Time_passes 50000000, Ticker 0])))
   = Some ([WgAdd, WgDone, Returns In_Stop], 1, [], [9])"
proof
  fix n
  have "\<exists>t. execute (\<lambda>items :: nat list. (Returns_nil :: unit result)) 1 (2 ^ 34) []
          [Call_Start, Work_begins 0 False, Call_Enqueue 9, Call_Stop, Select_quit 0,
           Wait_returns 0, Call_SafeStop] = Some t
        \<and> trace t = [WgAdd, WgDone, Returns In_Stop] \<and> eventQueue t = [9] \<and> waiters t = []
        \<and> pollers t = [50000000] \<and> now t = 0"
    by (simp add: eval_defs)
  then obtain t where t: "execute (\<lambda>items :: nat list. (Returns_nil :: unit result)) 1 (2 ^ 34) []
          [Call_Start, Work_begins 0 False, Call_Enqueue 9, Call_Stop, Select_quit 0,
           Wait_returns 0, Call_SafeStop] = Some t"
    and f: "trace t = [WgAdd, WgDone, Returns In_Stop]" "eventQueue t = [9]" "waiters t = []"
      "pollers t = [50000000]" "now t = 0"
    by (elim exE conjE) (rule that; assumption)
  from poll_rounds[of t 50000000 n] f
  obtain s' where s': "run t (concat (replicate n [Time_passes 50000000, Ticker 0])) = Some s'"
    "trace s' = trace t" "eventQueue s' = eventQueue t" "waiters s' = waiters t"
    "length (pollers s') = 1"
    by auto
  from t s'(1) have "execute (\<lambda>items :: nat list. (Returns_nil :: unit result)) 1 (2 ^ 34) []
        ([Call_Start, Work_begins 0 False, Call_Enqueue 9, Call_Stop, Select_quit 0,
          Wait_returns 0, Call_SafeStop]
         @ concat (replicate n [Time_passes 50000000, Ticker 0])) = Some s'"
    by (subst execute_append) simp
  then show "map_option (\<lambda>s. (trace s, length (pollers s), waiters s, eventQueue s))
     (execute (\<lambda>items :: nat list. (Returns_nil :: unit result)) 1 (2 ^ 34) []
        ([Call_Start, Work_begins 0 False, Call_Enqueue 9, Call_Stop, Select_quit 0,
          Wait_returns 0, Call_SafeStop]
         @ concat (replicate n [Time_passes 50000000, Ticker 0])))
   = Some ([WgAdd, WgDone, Returns In_Stop], 1, [], [9])"
    using s' f by simp
qed

text \<open>
  C10 (amended). Once quit is closed it stays closed, and from then on: a call of Stop
  panics at once (close of a closed channel) and neither waits nor returns; a call of
  SafeStop panics in the same way at the first moment it observes the queue empty, at
  its immediate check or at a tick; as long as it observes the queue non-empty it keeps
  polling every 50 milliseconds and neither panics nor returns.
\<close>

theorem second_shutdown_call_panics_on_close:
  assumes "quit s"
  shows "Stop s = emit [ClosePanic In_Stop] s
       \<and> (eventQueue s = [] \<longrightarrow> SafeStop s = emit [ClosePanic In_SafeStop] s)
       \<and> (eventQueue s \<noteq> [] \<longrightarrow>
            SafeStop s = s\<lparr>pollers := pollers s @ [now s + 50 * Millisecond]\<rparr>)
       \<and> (k < length (pollers s) \<and> pollers s ! k \<le> now s \<longrightarrow>
            (eventQueue s = [] \<longrightarrow>
               SafeStop_tick k s =
                 Some (emit [ClosePanic In_SafeStop]
                         (s\<lparr>pollers := take k (pollers s) @ drop (Suc k) (pollers s)\<rparr>)))
            \<and> (eventQueue s \<noteq> [] \<longrightarrow>
                 SafeStop_tick k s =
                   Some (s\<lparr>pollers := (pollers s)[k := pollers s ! k + 50 * Millisecond]\<rparr>)))
       \<and> (\<forall>a s'. step s a = Some s' \<longrightarrow> quit s')"
  using assms step_quit[of s]
  by (auto simp: Stop_def SafeStop_def SafeStop_tick_def close_quit_def emit_def)

theorem second_shutdown_call_panics_on_close_witness:
  "(let s = \<lparr>option = \<lparr>BatchSize = 8, Workers = 1, ChannelBufferSize = 1, LingerTime = 0,
                        ErrorHandler = False, Logger = False\<rparr>,
              wg = 0, quit = True, eventQueue = [9], capacity = 1,
              batchProcessor = (\<lambda>items :: nat list. (Returns_nil :: unit result)),
              workers = [], handlers = [], pollers = [5], waiters = [], blocked = [], woken = [],
              now = 10, memory = 0, trace = []\<rparr>
    in trace (Stop s) = [ClosePanic In_Stop]
     \<and> waiters (Stop s) = []
     \<and> trace (SafeStop s) = []
     \<and> pollers (SafeStop s) = [5, 50000010]
     \<and> SafeStop_tick 0 s = Some (s\<lparr>pollers := [50000005]\<rparr>)
     \<and> trace (SafeStop (s\<lparr>eventQueue := []\<rparr>)) = [ClosePanic In_SafeStop]
     \<and> map_option trace (SafeStop_tick 0 (s\<lparr>eventQueue := []\<rparr>)) = Some [ClosePanic In_SafeStop])"
  using second_shutdown_call_panics_on_close [of
          "\<lparr>option = \<lparr>BatchSize = 8, Workers = 1, ChannelBufferSize = 1, LingerTime = 0,
                        ErrorHandler = False, Logger = False\<rparr>,
              wg = 0, quit = True, eventQueue = [9], capacity = 1,
              batchProcessor = (\<lambda>items :: nat list. (Returns_nil :: unit result)),
              workers = [], handlers = [], pollers = [5], waiters = [], blocked = [], woken = [],
              now = 10, memory = 0, trace = []\<rparr>" 0]
        second_shutdown_call_panics_on_close [of
          "\<lparr>option = \<lparr>BatchSize = 8, Workers = 1, ChannelBufferSize = 1, LingerTime = 0,
                        ErrorHandler = False, Logger = False\<rparr>,
              wg = 0, quit = True, eventQueue = [], capacity = 1,
              batchProcessor = (\<lambda>items :: nat list. (Returns_nil :: unit result)),
              workers = [], handlers = [], pollers = [5], waiters = [], blocked = [], woken = [],
              now = 10, memory = 0, trace = []\<rparr>" 0]
  by (simp add: Let_def emit_def Millisecond_def)

end
